theory Spec2Isabelle
  imports Complex_Main "HOL-Library.Word"
begin

unbundle bit_operations_syntax

section \<open>JavaScript values\<close>

text \<open>
  The codec of \<^verbatim>\<open>src/js/thumbhash.js\<close> computes with JavaScript Numbers. A Number
  is modelled as an exact real or \<open>NaN\<close>: the rounding error of IEEE doubles, the
  infinities and the sign of zero are left out. Under exact arithmetic the program never
  divides a non-zero number by zero (the divisors are constants, \<open>w * h\<close> under a zero
  numerator, and \<open>scale\<close> behind \<open>if (scale)\<close>), so \<open>0 / 0 = NaN\<close> is the only
  division by zero that is modelled. Reading an array out of range gives \<open>undefined\<close>,
  which arithmetic turns into \<open>NaN\<close> and the bitwise operators turn into \<open>0\<close>.

  The Numbers of the model are therefore not the doubles of the code wherever the code
  rounds. \<^verbatim>\<open>Math.cos(Math.PI / 2)\<close> is about \<open>6.1e-17\<close> where \<open>cos (pi / 2) = 0\<close>; at
  the term counts 4 and 3 a white pixel has the normalised AC term \<open>0.4999999999999999\<close>
  and the nibble 7 in doubles, where exact arithmetic gives \<open>0.5\<close> and the nibble 8. The
  coefficients, header fields, nibbles and pixel values of the model are those of exact
  arithmetic; they agree with the code's only up to its rounding.

  The theorems about the codec are of three kinds. The lengths and shapes of the results
  and the errors do not depend on the value of any Number. The reading of a hash is
  integer arithmetic on its bytes, followed by the decoder's own expressions on the
  fields, which the theorem repeats operation by operation. And the header word of the
  encoder stays below \<open>2\<^sup>2\<^sup>3\<close> (the section on the alpha bit): that is proved of exact
  arithmetic.
\<close>

datatype number = NaN | Num real

type_synonym byte = "8 word"

fun nlift2 :: "(real \<Rightarrow> real \<Rightarrow> real) \<Rightarrow> number \<Rightarrow> number \<Rightarrow> number" where
  "nlift2 f (Num a) (Num b) = Num (f a b)"
| "nlift2 f _ _ = NaN"

definition nadd :: "number \<Rightarrow> number \<Rightarrow> number" where
  "nadd = nlift2 (+)"

definition nsub :: "number \<Rightarrow> number \<Rightarrow> number" where
  "nsub = nlift2 (-)"

definition nmul :: "number \<Rightarrow> number \<Rightarrow> number" where
  "nmul = nlift2 (*)"

fun ndiv :: "number \<Rightarrow> number \<Rightarrow> number" where
  "ndiv (Num a) (Num b) = (if b = 0 then NaN else Num (a / b))"
| "ndiv _ _ = NaN"

text \<open>\<^verbatim>\<open>Math.max\<close>, \<^verbatim>\<open>Math.min\<close>, \<^verbatim>\<open>Math.abs\<close>: \<open>NaN\<close> if an argument is.\<close>

definition nmax :: "number \<Rightarrow> number \<Rightarrow> number" where
  "nmax = nlift2 max"

definition nmin :: "number \<Rightarrow> number \<Rightarrow> number" where
  "nmin = nlift2 min"

fun nabs :: "number \<Rightarrow> number" where
  "nabs (Num a) = Num \<bar>a\<bar>"
| "nabs NaN = NaN"

text \<open>\<^verbatim>\<open>Math.round\<close> rounds to the nearest integer, a tie towards \<open>+\<infinity>\<close>.\<close>

fun nround :: "number \<Rightarrow> number" where
  "nround (Num a) = Num (of_int \<lfloor>a + 1 / 2\<rfloor>)"
| "nround NaN = NaN"

text \<open>The condition of \<^verbatim>\<open>if (x)\<close> on a Number: false for \<open>0\<close> and \<open>NaN\<close>.\<close>

fun truthy :: "number \<Rightarrow> bool" where
  "truthy (Num a) = (a \<noteq> 0)"
| "truthy NaN = False"

text \<open>
  The bitwise operators work on 32-bit two's complement integers. \<open>toInt32\<close> is the
  conversion of their operands: \<open>NaN\<close> becomes \<open>0\<close>, a number is truncated towards
  zero and wrapped. Values of that range are kept as \<open>int\<close>; \<open>|\<close>, \<open>&\<close> and \<open>^\<close>
  are then \<open>OR\<close>, \<open>AND\<close> and \<open>XOR\<close> of \<open>int\<close>, which stay in the range.
\<close>

definition wrap32 :: "int \<Rightarrow> int" where
  "wrap32 k = signed_take_bit 31 k"

fun toInt32 :: "number \<Rightarrow> int" where
  "toInt32 NaN = 0"
| "toInt32 (Num a) = wrap32 (if 0 \<le> a then \<lfloor>a\<rfloor> else \<lceil>a\<rceil>)"

definition shl32 :: "int \<Rightarrow> nat \<Rightarrow> int" where
  \<comment> \<open>\<^verbatim>\<open>a << k\<close>\<close>
  "shl32 a k = wrap32 (push_bit (k mod 32) a)"

definition sar32 :: "int \<Rightarrow> nat \<Rightarrow> int" where
  \<comment> \<open>\<^verbatim>\<open>a >> k\<close>, the sign-propagating shift\<close>
  "sar32 a k = drop_bit (k mod 32) a"

definition shr32 :: "int \<Rightarrow> nat \<Rightarrow> int" where
  \<comment> \<open>\<^verbatim>\<open>a >>> k\<close>, the zero-filling shift: its result is an unsigned 32-bit integer\<close>
  "shr32 a k = drop_bit (k mod 32) (take_bit 32 a)"

definition not32 :: "int \<Rightarrow> int" where
  \<comment> \<open>\<^verbatim>\<open>~a\<close>\<close>
  "not32 a = NOT a"

text \<open>An element of a byte array as a Number, \<open>undefined\<close> (here \<open>NaN\<close>) out of range.\<close>

definition byte_num :: "byte list \<Rightarrow> nat \<Rightarrow> number" where
  "byte_num a j = (if j < length a then Num (real_of_int (uint (a ! j))) else NaN)"

text \<open>An element of an array of Numbers, \<open>undefined\<close> (here \<open>NaN\<close>) out of range.\<close>

definition nth_num :: "number list \<Rightarrow> nat \<Rightarrow> number" where
  "nth_num a j = (if j < length a then a ! j else NaN)"

text \<open>An element of an array of integers under a bitwise operator: \<open>0\<close> out of range.\<close>

definition nth_int32 :: "int list \<Rightarrow> nat \<Rightarrow> int" where
  "nth_int32 a j = (if j < length a then a ! j else 0)"

text \<open>
  \<^verbatim>\<open>a[i] = v\<close> on an ordinary array: a write past the end extends the array. The
  holes it would leave read as \<open>undefined\<close>, which every later use here (\<open>|=\<close> and the
  conversion to \<^verbatim>\<open>Uint8Array\<close>) converts to \<open>0\<close>.
\<close>

definition array_set :: "int list \<Rightarrow> nat \<Rightarrow> int \<Rightarrow> int list" where
  "array_set a i v =
     (if i < length a then a[i := v] else a @ replicate (i - length a) 0 @ [v])"

section \<open>Configuration\<close>

record config =
  LUMINANCE_TERMS :: nat
  CHROMINANCE_TERMS :: nat

datatype error = DimensionError | ConfigurationError | RangeError | InvalidCharacterError

definition config_initial :: config where
  "config_initial = \<lparr>LUMINANCE_TERMS = 7, CHROMINANCE_TERMS = 3\<rparr>"

definition ac_start :: nat where
  "ac_start = 5"

text \<open>
  \<^verbatim>\<open>configThumbHash\<close> replaces the process-wide configuration or throws; the
  configuration is passed to the codec explicitly here.
\<close>

definition configThumbHash :: "nat \<Rightarrow> nat \<Rightarrow> error + config" where
  "configThumbHash luminanceTerms chrominanceTerms =
     (if luminanceTerms < 1 \<or> luminanceTerms > 10 then Inl ConfigurationError
      else if chrominanceTerms < 1 \<or> chrominanceTerms > 10 then Inl ConfigurationError
      else Inr \<lparr>LUMINANCE_TERMS = luminanceTerms, CHROMINANCE_TERMS = chrominanceTerms\<rparr>)"

section \<open>Encoding\<close>

text \<open>
  The loop \<^verbatim>\<open>for (cx = c0; cx * n < n * (n - cy); cx++) body\<close> of the encoder and
  the decoder, from \<open>cx\<close> on a state \<open>s\<close>. It runs under \<^verbatim>\<open>cy < n\<close>, where the
  subtraction does not go below zero.
\<close>

function tri_loop :: "nat \<Rightarrow> nat \<Rightarrow> (nat \<Rightarrow> 'a \<Rightarrow> 'a) \<Rightarrow> nat \<Rightarrow> 'a \<Rightarrow> 'a" where
  "tri_loop n cy body cx s =
     (if cx * n < n * (n - cy) then tri_loop n cy body (Suc cx) (body cx s) else s)"
  by pat_completeness auto
termination
proof (relation "measure (\<lambda>(n, cy, body, cx, s). n * (n - cy) - cx * n)")
  fix n cy :: nat and body :: "nat \<Rightarrow> 'a \<Rightarrow> 'a" and cx :: nat and s :: 'a
  assume less: "cx * n < n * (n - cy)"
  then have "0 < n" by (cases n) auto
  with less have "n * (n - cy) - Suc cx * n < n * (n - cy) - cx * n"
    unfolding mult_Suc by linarith
  then show "((n, cy, body, Suc cx, body cx s), (n, cy, body, cx, s))
      \<in> measure (\<lambda>(n, cy, body, cx, s). n * (n - cy) - cx * n)"
    by simp
qed simp

text \<open>The first loop of \<^verbatim>\<open>rgbaToThumbHash\<close>: the alpha-weighted sums of R, G and B.\<close>

definition avg_step :: "byte list \<Rightarrow> nat \<Rightarrow> number \<times> number \<times> number \<Rightarrow> number \<times> number \<times> number" where
  "avg_step rgba i s =
     (case s of (avg_r, avg_g, avg_b) \<Rightarrow>
        let j = 4 * i;
            alpha = ndiv (byte_num rgba (j + 3)) (Num 255)
        in (nadd avg_r (nmul (ndiv alpha (Num 255)) (byte_num rgba j)),
            nadd avg_g (nmul (ndiv alpha (Num 255)) (byte_num rgba (j + 1))),
            nadd avg_b (nmul (ndiv alpha (Num 255)) (byte_num rgba (j + 2)))))"

definition average :: "nat \<Rightarrow> nat \<Rightarrow> byte list \<Rightarrow> number \<times> number \<times> number" where
  "average w h rgba =
     (case fold (avg_step rgba) [0..<w * h] (Num 0, Num 0, Num 0) of
        (avg_r, avg_g, avg_b) \<Rightarrow>
          (ndiv avg_r (Num (real (w * h))), ndiv avg_g (Num (real (w * h))),
           ndiv avg_b (Num (real (w * h)))))"

text \<open>
  The second loop: pixel \<open>i\<close> composited over the average colour, as its L, P and Q
  values. The arrays \<open>l\<close>, \<open>p\<close> and \<open>q\<close> are filled at the indices \<open>0, 1, ...\<close> in
  turn, so each is the list of the values in that order.
\<close>

definition lpq_pixel :: "number \<times> number \<times> number \<Rightarrow> byte list \<Rightarrow> nat \<Rightarrow> number \<times> number \<times> number" where
  "lpq_pixel avg rgba i =
     (case avg of (avg_r, avg_g, avg_b) \<Rightarrow>
        let j = 4 * i;
            alpha = ndiv (byte_num rgba (j + 3)) (Num 255);
            r = nadd (nmul avg_r (nsub (Num 1) alpha)) (nmul (ndiv alpha (Num 255)) (byte_num rgba j));
            g = nadd (nmul avg_g (nsub (Num 1) alpha)) (nmul (ndiv alpha (Num 255)) (byte_num rgba (j + 1)));
            b = nadd (nmul avg_b (nsub (Num 1) alpha)) (nmul (ndiv alpha (Num 255)) (byte_num rgba (j + 2)))
        in (ndiv (nadd (nadd r g) b) (Num 3),
            nsub (ndiv (nadd r g) (Num 2)) b,
            nsub r g))"

definition toLPQ :: "nat \<Rightarrow> nat \<Rightarrow> byte list \<Rightarrow> number list \<times> number list \<times> number list" where
  "toLPQ w h rgba =
     (let avg = average w h rgba;
          px = map (lpq_pixel avg rgba) [0..<w * h]
      in (map fst px, map (fst \<circ> snd) px, map (snd \<circ> snd) px))"

text \<open>
  One coefficient of \<^verbatim>\<open>encodeChannel\<close>: the row of cosines \<open>fx\<close>, the double loop
  that accumulates \<open>f\<close>, and the division by \<open>w * h\<close>. The cosines are taken of
  finite numbers (\<open>w\<close> and \<open>h\<close> are positive where they are computed). Here \<open>cos\<close>
  is the cosine of the reals and the sum is exact; \<^verbatim>\<open>Math.cos\<close> is the approximation
  of the engine, and the code rounds after every operation.
\<close>

definition dct_term :: "nat \<Rightarrow> nat \<Rightarrow> number list \<Rightarrow> nat \<Rightarrow> nat \<Rightarrow> number" where
  "dct_term w h channel cx cy =
     (let fx = map (\<lambda>x. Num (cos (pi / real w * real cx * (real x + 0.5)))) [0..<w];
          f = fold (\<lambda>y f.
                 let fy = Num (cos (pi / real h * real cy * (real y + 0.5)))
                 in fold (\<lambda>x f. nadd f (nmul (nmul (nth_num channel (x + y * w)) (nth_num fx x)) fy))
                      [0..<w] f)
               [0..<h] (Num 0)
      in ndiv f (Num (real (w * h))))"

definition ec_body :: "nat \<Rightarrow> nat \<Rightarrow> number list \<Rightarrow> nat \<Rightarrow> nat \<Rightarrow>
    number \<times> number list \<times> number \<Rightarrow> number \<times> number list \<times> number" where
  "ec_body w h channel cy cx s =
     (case s of (dc, ac, scale) \<Rightarrow>
        let f = dct_term w h channel cx cy
        in if cx \<noteq> 0 \<or> cy \<noteq> 0 then (dc, ac @ [f], nmax scale (nabs f))
           else (f, ac, scale))"

definition encodeChannel :: "nat \<Rightarrow> nat \<Rightarrow> number list \<Rightarrow> nat \<Rightarrow> number \<times> number list \<times> number" where
  "encodeChannel w h channel n =
     (case fold (\<lambda>cy s. tri_loop n cy (ec_body w h channel cy) 0 s) [0..<n] (Num 0, [], Num 0) of
        (dc, ac, scale) \<Rightarrow>
          (dc,
           if truthy scale
           then map (\<lambda>a. nadd (Num 0.5) (nmul (ndiv (Num 0.5) scale) a)) ac
           else ac,
           scale))"

text \<open>
  \<^verbatim>\<open>hash[ac_start + (ac_index >> 1)] |= round(0x0f * f) << ((ac_index++ & 1) << 2)\<close>
  on the array and the counter.
\<close>

definition write_ac :: "number \<Rightarrow> int list \<times> nat \<Rightarrow> int list \<times> nat" where
  "write_ac f s =
     (case s of (hash, ac_index) \<Rightarrow>
        let k = ac_start + drop_bit 1 ac_index
        in (array_set hash k
              (nth_int32 hash k OR
               shl32 (toInt32 (nround (nmul (Num 15) f))) (push_bit 2 (ac_index AND 1))),
            Suc ac_index))"

definition header24_of :: "number \<Rightarrow> number \<Rightarrow> number \<Rightarrow> number \<Rightarrow> int" where
  "header24_of l_dc p_dc q_dc l_scale =
     ((toInt32 (nround (nmul (Num 63) l_dc))
       OR shl32 (toInt32 (nround (nadd (Num 31.5) (nmul (Num 31.5) p_dc)))) 6)
      OR shl32 (toInt32 (nround (nadd (Num 31.5) (nmul (Num 31.5) q_dc)))) 12)
     OR shl32 (toInt32 (nround (nmul (Num 31) l_scale))) 18"

definition header16_of :: "number \<Rightarrow> number \<Rightarrow> int" where
  "header16_of p_scale q_scale =
     shl32 (toInt32 (nround (nmul (Num 63) p_scale))) 3
     OR shl32 (toInt32 (nround (nmul (Num 63) q_scale))) 9"

text \<open>
  The array \<open>hash\<close> before \<^verbatim>\<open>new Uint8Array(hash)\<close>: the five header elements and
  the elements the AC terms of L, P and Q add.
\<close>

definition hash_array :: "config \<Rightarrow> nat \<Rightarrow> nat \<Rightarrow> byte list \<Rightarrow> int list" where
  "hash_array cfg w h rgba =
     (case toLPQ w h rgba of (l, p, q) \<Rightarrow>
      case encodeChannel w h l (LUMINANCE_TERMS cfg) of (l_dc, l_ac, l_scale) \<Rightarrow>
      case encodeChannel w h p (CHROMINANCE_TERMS cfg) of (p_dc, p_ac, p_scale) \<Rightarrow>
      case encodeChannel w h q (CHROMINANCE_TERMS cfg) of (q_dc, q_ac, q_scale) \<Rightarrow>
        let header24 = header24_of l_dc p_dc q_dc l_scale;
            header16 = header16_of p_scale q_scale;
            hash = [header24 AND 255, sar32 header24 8 AND 255, sar32 header24 16,
                    header16 AND 255, sar32 header16 8]
        in fst (fold write_ac (concat [l_ac, p_ac, q_ac]) (hash, 0)))"

text \<open>
  \<^verbatim>\<open>rgbaToThumbHash\<close>. \<^verbatim>\<open>new Uint8Array(hash)\<close> keeps each element modulo 256.
\<close>

definition rgbaToThumbHash :: "config \<Rightarrow> nat \<Rightarrow> nat \<Rightarrow> byte list \<Rightarrow> error + byte list" where
  "rgbaToThumbHash cfg w h rgba =
     (if w > 100 \<or> h > 100 then Inl DimensionError
      else Inr (map word_of_int (hash_array cfg w h rgba)))"

section \<open>Decoding\<close>

text \<open>An element of a \<^verbatim>\<open>Uint8Array\<close> under a bitwise operator: \<open>0\<close> out of range.\<close>

definition hash_int :: "byte list \<Rightarrow> nat \<Rightarrow> int" where
  "hash_int hash j = (if j < length hash then uint (hash ! j) else 0)"

text \<open>A 32-bit integer used as a Number.\<close>

definition num_of_int :: "int \<Rightarrow> number" where
  "num_of_int k = Num (real_of_int k)"

text \<open>
  A Number stored into a \<^verbatim>\<open>Uint8Array\<close>: \<open>NaN\<close> becomes \<open>0\<close>, a number is
  truncated towards zero and kept modulo 256.
\<close>

fun toUint8 :: "number \<Rightarrow> byte" where
  "toUint8 NaN = 0"
| "toUint8 (Num a) = word_of_int (if 0 \<le> a then \<lfloor>a\<rfloor> else \<lceil>a\<rceil>)"

definition header24_read :: "byte list \<Rightarrow> int" where
  "header24_read hash =
     (hash_int hash 0 OR shl32 (hash_int hash 1) 8) OR shl32 (hash_int hash 2) 16"

definition header16_read :: "byte list \<Rightarrow> int" where
  "header16_read hash = hash_int hash 3 OR shl32 (hash_int hash 4) 8"

text \<open>
  The constants \<^verbatim>\<open>thumbHashToRGBA\<close> reads from the two header words: its locals
  \<open>l_dc\<close>, \<open>p_dc\<close>, \<open>q_dc\<close>, \<open>l_scale\<close>, \<open>p_scale\<close> and \<open>q_scale\<close>.
\<close>

record constants =
  hdr_l_dc :: number
  hdr_p_dc :: number
  hdr_q_dc :: number
  hdr_l_scale :: number
  hdr_p_scale :: number
  hdr_q_scale :: number

definition read_constants :: "byte list \<Rightarrow> constants" where
  "read_constants hash =
     (let header24 = header24_read hash;
          header16 = header16_read hash
      in \<lparr>hdr_l_dc = ndiv (num_of_int (header24 AND 63)) (Num 63),
          hdr_p_dc = nsub (ndiv (num_of_int (sar32 header24 6 AND 63)) (Num 31.5)) (Num 1),
          hdr_q_dc = nsub (ndiv (num_of_int (sar32 header24 12 AND 63)) (Num 31.5)) (Num 1),
          hdr_l_scale = ndiv (num_of_int (sar32 header24 18 AND 31)) (Num 31),
          hdr_p_scale = ndiv (num_of_int (sar32 header16 3 AND 63)) (Num 63),
          hdr_q_scale = ndiv (num_of_int (sar32 header16 9 AND 63)) (Num 63)\<rparr>)"

text \<open>
  The body of the loops of \<^verbatim>\<open>decodeChannel\<close>, on the array \<open>ac\<close> and the counter
  \<open>ac_index\<close>, which the three calls share:
  \<^verbatim>\<open>ac.push((((hash[ac_start + (ac_index >> 1)] >> ((ac_index++ & 1) << 2)) & 15) / 7.5 - 1) * scale)\<close>.
\<close>

definition read_ac :: "byte list \<Rightarrow> number \<Rightarrow> number list \<times> nat \<Rightarrow> number list \<times> nat" where
  "read_ac hash scale s =
     (case s of (ac, ac_index) \<Rightarrow>
        (ac @ [nmul
                 (nsub
                    (ndiv
                       (num_of_int
                          (sar32 (hash_int hash (ac_start + drop_bit 1 ac_index))
                             (push_bit 2 (ac_index AND 1)) AND 15))
                       (Num 7.5))
                    (Num 1))
                 scale],
         Suc ac_index))"

text \<open>\<^verbatim>\<open>decodeChannel\<close> from a value of the counter; it returns the counter with the terms.\<close>

definition decodeChannel :: "byte list \<Rightarrow> nat \<Rightarrow> number \<Rightarrow> nat \<Rightarrow> number list \<times> nat" where
  "decodeChannel hash n scale ac_index =
     fold (\<lambda>cy s. tri_loop n cy (\<lambda>cx. read_ac hash scale) (if cy \<noteq> 0 then 0 else 1) s)
       [0..<n] ([], ac_index)"

text \<open>The three calls of \<^verbatim>\<open>decodeChannel\<close>, for L, P and Q.\<close>

definition decode_acs :: "config \<Rightarrow> byte list \<Rightarrow> number list \<times> number list \<times> number list" where
  "decode_acs cfg hash =
     (let c = read_constants hash in
      case decodeChannel hash (LUMINANCE_TERMS cfg) (hdr_l_scale c) 0 of (l_ac, i1) \<Rightarrow>
      case decodeChannel hash (CHROMINANCE_TERMS cfg) (nmul (hdr_p_scale c) (Num 1.25)) i1 of (p_ac, i2) \<Rightarrow>
      case decodeChannel hash (CHROMINANCE_TERMS cfg) (nmul (hdr_q_scale c) (Num 1.25)) i2 of (q_ac, i3) \<Rightarrow>
        (l_ac, p_ac, q_ac))"

text \<open>
  One pixel of the 32 x 32 raster: the cosines \<open>fx\<close> and \<open>fy\<close> (both arrays get
  \<^verbatim>\<open>LUMINANCE_TERMS\<close> elements, whatever \<^verbatim>\<open>CHROMINANCE_TERMS\<close> is), the sums for
  L and for P and Q, and the conversion to R, G and B.
\<close>

definition decode_l_body :: "number list \<Rightarrow> number list \<Rightarrow> number \<Rightarrow> nat \<Rightarrow> number \<times> nat \<Rightarrow> number \<times> nat" where
  "decode_l_body l_ac fx fy2 cx s =
     (case s of (l, j) \<Rightarrow> (nadd l (nmul (nmul (nth_num l_ac j) (nth_num fx cx)) fy2), Suc j))"

definition decode_pq_body :: "number list \<Rightarrow> number list \<Rightarrow> number list \<Rightarrow> number \<Rightarrow> nat \<Rightarrow>
    number \<times> number \<times> nat \<Rightarrow> number \<times> number \<times> nat" where
  "decode_pq_body p_ac q_ac fx fy2 cx s =
     (case s of (p, q, j) \<Rightarrow>
        let f = nmul (nth_num fx cx) fy2
        in (nadd p (nmul (nth_num p_ac j) f), nadd q (nmul (nth_num q_ac j) f), Suc j))"

definition decode_pixel :: "config \<Rightarrow> constants \<Rightarrow> number list \<times> number list \<times> number list \<Rightarrow>
    nat \<Rightarrow> nat \<Rightarrow> number \<times> number \<times> number" where
  "decode_pixel cfg c acs x y =
     (case acs of (l_ac, p_ac, q_ac) \<Rightarrow>
      let fx = map (\<lambda>cx. Num (cos (pi / 32 * (real x + 0.5) * real cx))) [0..<LUMINANCE_TERMS cfg];
          fy = map (\<lambda>cy. Num (cos (pi / 32 * (real y + 0.5) * real cy))) [0..<LUMINANCE_TERMS cfg];
          l = fst (fold (\<lambda>cy s. tri_loop (LUMINANCE_TERMS cfg) cy
                       (decode_l_body l_ac fx (nmul (nth_num fy cy) (Num 2)))
                       (if cy \<noteq> 0 then 0 else 1) s)
                     [0..<LUMINANCE_TERMS cfg] (hdr_l_dc c, 0));
          pq = fold (\<lambda>cy s. tri_loop (CHROMINANCE_TERMS cfg) cy
                       (decode_pq_body p_ac q_ac fx (nmul (nth_num fy cy) (Num 2)))
                       (if cy \<noteq> 0 then 0 else 1) s)
                 [0..<CHROMINANCE_TERMS cfg] (hdr_p_dc c, hdr_q_dc c, 0);
          p = fst pq;
          q = fst (snd pq);
          b = nsub l (nmul (ndiv (Num 2) (Num 3)) p);
          r = ndiv (nadd (nsub (nmul (Num 3) l) b) q) (Num 2);
          g = nsub r q
      in (r, g, b))"

text \<open>
  The body of the pixel loops on the array \<open>rgba\<close> and the index \<open>i\<close>. A write to a
  \<^verbatim>\<open>Uint8Array\<close> out of range is ignored, as \<open>list_update\<close> does.
\<close>

definition write_pixel :: "config \<Rightarrow> constants \<Rightarrow> number list \<times> number list \<times> number list \<Rightarrow>
    nat \<Rightarrow> nat \<Rightarrow> byte list \<times> nat \<Rightarrow> byte list \<times> nat" where
  "write_pixel cfg c acs y x s =
     (case s of (rgba, i) \<Rightarrow>
      case decode_pixel cfg c acs x y of (r, g, b) \<Rightarrow>
        (rgba[i := toUint8 (nmax (Num 0) (nmul (Num 255) (nmin (Num 1) r))),
              i + 1 := toUint8 (nmax (Num 0) (nmul (Num 255) (nmin (Num 1) g))),
              i + 2 := toUint8 (nmax (Num 0) (nmul (Num 255) (nmin (Num 1) b))),
              i + 3 := 255],
         i + 4))"

record image =
  img_w :: nat
  img_h :: nat
  img_rgba :: "byte list"

text \<open>\<^verbatim>\<open>thumbHashToRGBA\<close>; the fields of the result are \<open>w\<close>, \<open>h\<close> and \<open>rgba\<close> in the source.\<close>

definition thumbHashToRGBA :: "config \<Rightarrow> byte list \<Rightarrow> image" where
  "thumbHashToRGBA cfg hash =
     (let c = read_constants hash;
          rgba0 = replicate (32 * 32 * 4) 0;
          acs = decode_acs cfg hash;
          w = 32;
          h = 32;
          rgba = fst (fold (\<lambda>y s. fold (write_pixel cfg c acs y) [0..<w] s) [0..<h] (rgba0, 0))
      in \<lparr>img_w = w, img_h = h, img_rgba = rgba\<rparr>)"

section \<open>The average colour\<close>

record color =
  col_r :: number
  col_g :: number
  col_b :: number
  col_a :: number

text \<open>\<^verbatim>\<open>thumbHashToAverageRGBA\<close>; the fields of the result are \<open>r\<close>, \<open>g\<close>, \<open>b\<close> and \<open>a\<close>.\<close>

definition thumbHashToAverageRGBA :: "byte list \<Rightarrow> color" where
  "thumbHashToAverageRGBA hash =
     (let header = header24_read hash;
          l = ndiv (num_of_int (header AND 63)) (Num 63);
          p = nsub (ndiv (num_of_int (sar32 header 6 AND 63)) (Num 31.5)) (Num 1);
          q = nsub (ndiv (num_of_int (sar32 header 12 AND 63)) (Num 31.5)) (Num 1);
          hasAlpha = sar32 header 23;
          a = (if hasAlpha \<noteq> 0 then ndiv (num_of_int (hash_int hash 5 AND 15)) (Num 15) else Num 1);
          b = nsub l (nmul (ndiv (Num 2) (Num 3)) p);
          r = ndiv (nadd (nsub (nmul (Num 3) l) b) q) (Num 2);
          g = nsub r q
      in \<lparr>col_r = nmax (Num 0) (nmin (Num 1) r),
          col_g = nmax (Num 0) (nmin (Num 1) g),
          col_b = nmax (Num 0) (nmin (Num 1) b),
          col_a = a\<rparr>)"

section \<open>The PNG emitter\<close>

text \<open>A non-negative integer Number as the operand of a bitwise operator.\<close>

definition int32_of_nat :: "nat \<Rightarrow> int" where
  "int32_of_nat n = wrap32 (int n)"

definition table :: "int list" where
  "table = [0, 498536548, 997073096, 651767980, 1994146192, 1802195444, 1303535960,
     1342533948, -306674912, -267414716, -690576408, -882789492, -1687895376,
     -2032938284, -1609899400, -1111625188]"

text \<open>The array \<open>bytes\<close> as \<^verbatim>\<open>rgbaToDataURL\<close> first builds it.\<close>

definition png_head :: "nat \<Rightarrow> nat \<Rightarrow> int list" where
  "png_head w h =
     (let row = w * 4 + 1;
          idat = 6 + h * (5 + row)
      in [137, 80, 78, 71, 13, 10, 26, 10, 0, 0, 0, 13, 73, 72, 68, 82, 0, 0,
          sar32 (int32_of_nat w) 8, int32_of_nat w AND 255, 0, 0,
          sar32 (int32_of_nat h) 8, int32_of_nat h AND 255, 8, 6, 0, 0, 0, 0, 0, 0, 0,
          shr32 (int idat) 24, sar32 (int32_of_nat idat) 16 AND 255,
          sar32 (int32_of_nat idat) 8 AND 255, int32_of_nat idat AND 255,
          73, 68, 65, 84, 120, 1])"

text \<open>
  The inner loop's body, on \<open>bytes\<close>, \<open>a\<close> and \<open>b\<close>. Both sums stay non-negative,
  where \<^verbatim>\<open>%\<close> is \<open>mod\<close>.
\<close>

definition png_byte_step :: "byte list \<Rightarrow> nat \<Rightarrow> int list \<times> int \<times> int \<Rightarrow> int list \<times> int \<times> int" where
  "png_byte_step rgba i s =
     (case s of (bytes, a, b) \<Rightarrow>
        let u = hash_int rgba i AND 255;
            a1 = (a + u) mod 65521
        in (bytes @ [u], a1, (b + a1) mod 65521))"

text \<open>The outer loop's body for the row \<open>y\<close>, on \<open>bytes\<close>, \<open>a\<close>, \<open>b\<close>, \<open>i\<close> and \<open>end\<close>.\<close>

definition png_row_step :: "nat \<Rightarrow> nat \<Rightarrow> byte list \<Rightarrow> nat \<Rightarrow>
    int list \<times> int \<times> int \<times> nat \<times> nat \<Rightarrow> int list \<times> int \<times> int \<times> nat \<times> nat" where
  "png_row_step w h rgba y s =
     (case s of (bytes, a, b, i, end) \<Rightarrow>
        let row = w * 4 + 1;
            r = int32_of_nat row;
            bytes1 = bytes @ [if y + 1 < h then 0 else 1, r AND 255, sar32 r 8,
                              not32 r AND 255, sar32 r 8 XOR 255, 0]
        in case fold (png_byte_step rgba) [i..<end] (bytes1, a, (b + a) mod 65521) of
             (bytes2, a2, b2) \<Rightarrow> (bytes2, a2, b2, max i end, end + (row - 1)))"

text \<open>One byte of the checksum loop: \<^verbatim>\<open>c ^= bytes[i]\<close> and the two table steps.\<close>

definition crc_step :: "int list \<Rightarrow> nat \<Rightarrow> int \<Rightarrow> int" where
  "crc_step bytes i c =
     (let c1 = c XOR nth_int32 bytes i;
          c2 = shr32 c1 4 XOR table ! nat (c1 AND 15)
      in shr32 c2 4 XOR table ! nat (c2 AND 15))"

text \<open>The checksum of \<open>bytes[start..end)\<close>, written behind it.\<close>

definition png_crc :: "nat \<times> nat \<Rightarrow> int list \<Rightarrow> int list" where
  "png_crc se bytes =
     (case se of (start, end) \<Rightarrow>
        let c = not32 (fold (crc_step bytes) [start..<end] (not32 0));
            bytes1 = array_set bytes end (shr32 c 24);
            bytes2 = array_set bytes1 (end + 1) (sar32 c 16 AND 255);
            bytes3 = array_set bytes2 (end + 2) (sar32 c 8 AND 255)
        in array_set bytes3 (end + 3) (c AND 255))"

text \<open>The array \<open>bytes\<close> when \<^verbatim>\<open>rgbaToDataURL\<close> has finished it.\<close>

definition png_array :: "nat \<Rightarrow> nat \<Rightarrow> byte list \<Rightarrow> int list" where
  "png_array w h rgba =
     (let row = w * 4 + 1;
          idat = 6 + h * (5 + row)
      in case fold (png_row_step w h rgba) [0..<h] (png_head w h, 1, 0, 0, row - 1) of
           (bytes, a, b, i, end) \<Rightarrow>
             fold png_crc [(12, 29), (37, 41 + idat)]
               (bytes @ [sar32 b 8, b AND 255, sar32 a 8, a AND 255, 0, 0, 0, 0,
                         0, 0, 0, 0, 73, 69, 78, 68, 174, 66, 96, 130]))"

text \<open>
  \<^verbatim>\<open>rgbaToDataURL\<close> returns the text \<^verbatim>\<open>data:image/png;base64,\<close> followed by
  \<^verbatim>\<open>btoa(String.fromCharCode(...bytes))\<close>. The base64 text is not modelled: the
  result here is the byte sequence it encodes.

  The function has no guard of its own, and it fails where the engine does:

    \<^item> An array holds at most \<open>2\<^sup>3\<^sup>2 - 1\<close> elements; \<^verbatim>\<open>push\<close> beyond that throws a
      \<^verbatim>\<open>RangeError\<close>.

    \<^item> The call \<^verbatim>\<open>String.fromCharCode(...bytes)\<close> passes one argument for each element
      of \<open>bytes\<close>, and an engine throws a \<^verbatim>\<open>RangeError\<close> when a call has more arguments
      than it accepts. That limit belongs to the engine, not to the language or the
      source: it is the parameter \<open>max_args\<close>.

    \<^item> \<^verbatim>\<open>String.fromCharCode\<close> keeps each element modulo \<open>65536\<close>, and \<^verbatim>\<open>btoa\<close>
      throws an \<^verbatim>\<open>InvalidCharacterError\<close> when a character is above 255.

  Running out of memory is not modelled.
\<close>

definition rgbaToDataURL :: "nat \<Rightarrow> nat \<Rightarrow> nat \<Rightarrow> byte list \<Rightarrow> error + byte list" where
  "rgbaToDataURL max_args w h rgba =
     (let bytes = png_array w h rgba
      in if length bytes > 4294967295 \<or> length bytes > max_args then Inl RangeError
         else if list_ex (\<lambda>b. b mod 65536 > 255) bytes then Inl InvalidCharacterError
         else Inr (map word_of_int bytes))"

definition thumbHashToDataURL :: "nat \<Rightarrow> config \<Rightarrow> byte list \<Rightarrow> error + byte list" where
  "thumbHashToDataURL max_args cfg hash =
     (let image = thumbHashToRGBA cfg hash
      in rgbaToDataURL max_args (img_w image) (img_h image) (img_rgba image))"

section \<open>The specification's notions\<close>

text \<open>
  The enumeration of the coefficient indices, \<open>cy\<close> outer and \<open>cx\<close> inner, and its
  part without \<open>(0, 0)\<close>, the indices of the AC terms.
\<close>

definition tri_indices :: "nat \<Rightarrow> (nat \<times> nat) list" where
  "tri_indices n = concat (map (\<lambda>cy. map (\<lambda>cx. (cx, cy)) [0..<n - cy]) [0..<n])"

definition ac_indices :: "nat \<Rightarrow> (nat \<times> nat) list" where
  "ac_indices n = filter (\<lambda>c. c \<noteq> (0, 0)) (tri_indices n)"

text \<open>
  The number of AC coefficients of a channel with \<open>n\<close> terms, and of the three channels,
  as the specification counts them.
\<close>

definition ac_count :: "nat \<Rightarrow> nat" where
  "ac_count n = card {(cx, cy). cx * n < n * (n - cy) \<and> (cx, cy) \<noteq> (0, 0)}"

definition totalAc :: "config \<Rightarrow> nat" where
  "totalAc cfg = ac_count (LUMINANCE_TERMS cfg) + ac_count (CHROMINANCE_TERMS cfg) + ac_count (CHROMINANCE_TERMS cfg)"

text \<open>The term counts \<^verbatim>\<open>configThumbHash\<close> accepts.\<close>

definition valid_config :: "config \<Rightarrow> bool" where
  "valid_config cfg \<longleftrightarrow> 1 \<le> LUMINANCE_TERMS cfg \<and> LUMINANCE_TERMS cfg \<le> 10 \<and>
      1 \<le> CHROMINANCE_TERMS cfg \<and> CHROMINANCE_TERMS cfg \<le> 10"

text \<open>The AC coefficients of a channel before their normalisation, in enumeration order.\<close>

definition ac_raw :: "nat \<Rightarrow> nat \<Rightarrow> number list \<Rightarrow> nat \<Rightarrow> number list" where
  "ac_raw w h channel n = map (\<lambda>(cx, cy). dct_term w h channel cx cy) (ac_indices n)"

text \<open>
  The term counts of the earlier revision of the file, its constants
  \<^verbatim>\<open>LUMINANCE_TERMS = 4\<close> and \<^verbatim>\<open>CHROMINANCE_TERMS = 3\<close>. That revision is the
  codec above at this configuration: its \<^verbatim>\<open>encodeChannel(channel, nx, ny)\<close> is only
  called with \<open>nx = ny\<close>.
\<close>

definition config_reference :: config where
  "config_reference = \<lparr>LUMINANCE_TERMS = 4, CHROMINANCE_TERMS = 3\<rparr>"

text \<open>
  The inputs the documentation of \<^verbatim>\<open>rgbaToThumbHash\<close> admits: width and height
  from 1 to 100 and a buffer of \<open>w * h * 4\<close> bytes.
\<close>

definition valid_input :: "nat \<Rightarrow> nat \<Rightarrow> byte list \<Rightarrow> bool" where
  "valid_input w h rgba \<longleftrightarrow> 1 \<le> w \<and> w \<le> 100 \<and> 1 \<le> h \<and> h \<le> 100 \<and> length rgba = w * h * 4"

subsection \<open>The channels as real numbers\<close>

text \<open>
  The byte at an index, the alpha of pixel \<open>i\<close>, and its alpha-weighted colour
  component \<open>c\<close> (0 for R, 1 for G, 2 for B).
\<close>

definition sample :: "byte list \<Rightarrow> nat \<Rightarrow> real" where
  "sample rgba j = real_of_int (uint (rgba ! j))"

definition alpha_of :: "byte list \<Rightarrow> nat \<Rightarrow> real" where
  "alpha_of rgba i = sample rgba (4 * i + 3) / 255"

definition weighted :: "byte list \<Rightarrow> nat \<Rightarrow> nat \<Rightarrow> real" where
  "weighted rgba c i = alpha_of rgba i / 255 * sample rgba (4 * i + c)"

text \<open>
  The alpha-weighted average of a colour component, the component of pixel \<open>i\<close>
  composited over that average, and the L, P and Q values of the pixel.
\<close>

definition avg_color :: "nat \<Rightarrow> nat \<Rightarrow> byte list \<Rightarrow> nat \<Rightarrow> real" where
  "avg_color w h rgba c = (\<Sum>i<w * h. weighted rgba c i) / real (w * h)"

definition composite :: "nat \<Rightarrow> nat \<Rightarrow> byte list \<Rightarrow> nat \<Rightarrow> nat \<Rightarrow> real" where
  "composite w h rgba c i = avg_color w h rgba c * (1 - alpha_of rgba i) + weighted rgba c i"

definition l_value :: "nat \<Rightarrow> nat \<Rightarrow> byte list \<Rightarrow> nat \<Rightarrow> real" where
  "l_value w h rgba i = (composite w h rgba 0 i + composite w h rgba 1 i + composite w h rgba 2 i) / 3"

definition p_value :: "nat \<Rightarrow> nat \<Rightarrow> byte list \<Rightarrow> nat \<Rightarrow> real" where
  "p_value w h rgba i = (composite w h rgba 0 i + composite w h rgba 1 i) / 2 - composite w h rgba 2 i"

definition q_value :: "nat \<Rightarrow> nat \<Rightarrow> byte list \<Rightarrow> nat \<Rightarrow> real" where
  "q_value w h rgba i = composite w h rgba 0 i - composite w h rgba 1 i"

definition l_channel :: "nat \<Rightarrow> nat \<Rightarrow> byte list \<Rightarrow> real list" where
  "l_channel w h rgba = map (l_value w h rgba) [0..<w * h]"

definition p_channel :: "nat \<Rightarrow> nat \<Rightarrow> byte list \<Rightarrow> real list" where
  "p_channel w h rgba = map (p_value w h rgba) [0..<w * h]"

definition q_channel :: "nat \<Rightarrow> nat \<Rightarrow> byte list \<Rightarrow> real list" where
  "q_channel w h rgba = map (q_value w h rgba) [0..<w * h]"

subsection \<open>The cosine transform\<close>

text \<open>
  The coefficient \<open>(cx, cy)\<close> of a channel of \<open>w * h\<close> samples, as the specification
  writes it.
\<close>

definition dct :: "nat \<Rightarrow> nat \<Rightarrow> real list \<Rightarrow> nat \<Rightarrow> nat \<Rightarrow> real" where
  "dct w h channel cx cy =
     1 / real (w * h) *
     (\<Sum>y<h. \<Sum>x<w. channel ! (x + y * w) * cos (pi / real w * real cx * (real x + 0.5))
                                       * cos (pi / real h * real cy * (real y + 0.5)))"

text \<open>
  The AC coefficients in enumeration order, their largest absolute value (0 when
  there is none), and the normalisation to \<open>[0, 1]\<close>.
\<close>

definition ac_terms :: "nat \<Rightarrow> nat \<Rightarrow> real list \<Rightarrow> nat \<Rightarrow> real list" where
  "ac_terms w h channel n = map (\<lambda>(cx, cy). dct w h channel cx cy) (ac_indices n)"

definition ac_scale :: "real list \<Rightarrow> real" where
  "ac_scale acs = Max (insert 0 ((\<lambda>a. \<bar>a\<bar>) ` set acs))"

definition normalize_ac :: "real \<Rightarrow> real list \<Rightarrow> real list" where
  "normalize_ac scale acs = (if scale > 0 then map (\<lambda>a. 0.5 + 0.5 * a / scale) acs else acs)"

text \<open>
  What \<^verbatim>\<open>encodeChannel\<close> is to return for a channel: the DC value, the scale and
  the normalised AC terms.
\<close>

definition dc_of :: "nat \<Rightarrow> nat \<Rightarrow> real list \<Rightarrow> real" where
  "dc_of w h channel = dct w h channel 0 0"

definition scale_of :: "nat \<Rightarrow> nat \<Rightarrow> real list \<Rightarrow> nat \<Rightarrow> real" where
  "scale_of w h channel n = ac_scale (ac_terms w h channel n)"

definition ac_of :: "nat \<Rightarrow> nat \<Rightarrow> real list \<Rightarrow> nat \<Rightarrow> real list" where
  "ac_of w h channel n = normalize_ac (scale_of w h channel n) (ac_terms w h channel n)"

subsection \<open>The layout of the hash\<close>

text \<open>
  Rounding to the nearest integer, a tie upwards; the 4-bit quantisation of an AC term,
  clamped to \<open>[0, 15]\<close>; two nibbles to a byte, the low one first.
\<close>

definition round_half :: "real \<Rightarrow> int" where
  "round_half x = \<lfloor>x + 1 / 2\<rfloor>"

definition quant15 :: "real \<Rightarrow> int" where
  "quant15 f = max 0 (min 15 (round_half (15 * f)))"

fun pack_nibbles :: "int list \<Rightarrow> int list" where
  "pack_nibbles (lo # hi # rest) = (lo + 16 * hi) # pack_nibbles rest"
| "pack_nibbles [lo] = [lo]"
| "pack_nibbles [] = []"

text \<open>
  The two header words as sums of their fields at the bit positions 0, 6, 12 and 18,
  and 3 and 9, and the five header bytes.
\<close>

definition pack24 :: "real \<Rightarrow> real \<Rightarrow> real \<Rightarrow> real \<Rightarrow> int" where
  "pack24 l_dc p_dc q_dc l_scale =
     round_half (63 * l_dc) + 2 ^ 6 * round_half (31.5 + 31.5 * p_dc)
     + 2 ^ 12 * round_half (31.5 + 31.5 * q_dc) + 2 ^ 18 * round_half (31 * l_scale)"

definition pack16 :: "real \<Rightarrow> real \<Rightarrow> int" where
  "pack16 p_scale q_scale = 2 ^ 3 * round_half (63 * p_scale) + 2 ^ 9 * round_half (63 * q_scale)"

definition header_bytes :: "int \<Rightarrow> int \<Rightarrow> int list" where
  "header_bytes w24 w16 = [w24 mod 256, w24 div 256 mod 256, w24 div 65536, w16 mod 256, w16 div 256]"

text \<open>
  The hash the specification describes: the header bytes, then the nibbles of the AC
  terms of L, P and Q.
\<close>

definition packed_hash :: "config \<Rightarrow> nat \<Rightarrow> nat \<Rightarrow> byte list \<Rightarrow> int list" where
  "packed_hash cfg w h rgba =
     (let l = l_channel w h rgba; p = p_channel w h rgba; q = q_channel w h rgba;
          nl = LUMINANCE_TERMS cfg; nc = CHROMINANCE_TERMS cfg
      in header_bytes
           (pack24 (dc_of w h l) (dc_of w h p) (dc_of w h q) (scale_of w h l nl))
           (pack16 (scale_of w h p nc) (scale_of w h q nc))
         @ pack_nibbles (map quant15 (ac_of w h l nl @ ac_of w h p nc @ ac_of w h q nc)))"

subsection \<open>Reading a hash\<close>

text \<open>
  The header words of a byte sequence (a missing byte counts as 0), the \<open>k\<close>-th
  nibble behind the header, low nibble first, and its dequantisation with a scale.
\<close>

definition header24_value :: "byte list \<Rightarrow> int" where
  "header24_value hash = hash_int hash 0 + 256 * hash_int hash 1 + 65536 * hash_int hash 2"

definition header16_value :: "byte list \<Rightarrow> int" where
  "header16_value hash = hash_int hash 3 + 256 * hash_int hash 4"

definition nibble :: "byte list \<Rightarrow> nat \<Rightarrow> int" where
  "nibble hash k = (hash_int hash (5 + k div 2) div (if even k then 1 else 16)) mod 16"

definition dequantize :: "byte list \<Rightarrow> real \<Rightarrow> nat \<Rightarrow> number" where
  "dequantize hash scale k = Num ((real_of_int (nibble hash k) / 7.5 - 1) * scale)"

text \<open>
  The three scales in the header.
\<close>

definition l_scale_of :: "byte list \<Rightarrow> real" where
  "l_scale_of hash = real_of_int (header24_value hash div 2 ^ 18 mod 32) / 31"

definition p_scale_of :: "byte list \<Rightarrow> real" where
  "p_scale_of hash = real_of_int (header16_value hash div 2 ^ 3 mod 64) / 63"

definition q_scale_of :: "byte list \<Rightarrow> real" where
  "q_scale_of hash = real_of_int (header16_value hash div 2 ^ 9 mod 64) / 63"

section \<open>The PNG stream as the specification describes it\<close>

text \<open>
  CRC-32 with the reflected polynomial \<open>0xEDB88320\<close>, one bit at a time: the register
  starts at \<open>0xFFFFFFFF\<close>, each byte is XORed into its low end and shifted out in 8
  steps, and the result is complemented.
\<close>

definition crc_bit :: "int \<Rightarrow> int" where
  "crc_bit c = (if odd c then drop_bit 1 c XOR 0xEDB88320 else drop_bit 1 c)"

definition crc_byte :: "int \<Rightarrow> byte \<Rightarrow> int" where
  "crc_byte c b = (crc_bit ^^ 8) (c XOR uint b)"

definition crc32 :: "byte list \<Rightarrow> int" where
  "crc32 bs = fold (\<lambda>b c. crc_byte c b) bs 0xFFFFFFFF XOR 0xFFFFFFFF"

text \<open>The four bytes of a 32-bit value, most significant first.\<close>

definition be32 :: "int \<Rightarrow> byte list" where
  "be32 v = [word_of_int (v div 2 ^ 24), word_of_int (v div 2 ^ 16), word_of_int (v div 2 ^ 8), word_of_int v]"

text \<open>Adler-32 with the modulus 65521: the value is \<open>b * 65536 + a\<close>.\<close>

definition adler_step :: "int \<times> int \<Rightarrow> byte \<Rightarrow> int \<times> int" where
  "adler_step s u = (case s of (a, b) \<Rightarrow> let a1 = (a + uint u) mod 65521 in (a1, (b + a1) mod 65521))"

definition adler32 :: "byte list \<Rightarrow> int" where
  "adler32 bs = (case fold (\<lambda>u s. adler_step s u) bs (1, 0) of (a, b) \<Rightarrow> b * 65536 + a)"

text \<open>The \<open>w * 4\<close> bytes of the row \<open>y\<close> of the image.\<close>

definition scanline :: "nat \<Rightarrow> byte list \<Rightarrow> nat \<Rightarrow> byte list" where
  "scanline w rgba y = take (4 * w) (drop (4 * w * y) rgba)"

text \<open>
  A stored block of DEFLATE: the header \<open>[BFINAL, LEN_lo, LEN_hi, ~LEN_lo, ~LEN_hi]\<close> and
  the data.
\<close>

definition stored_block :: "bool \<Rightarrow> nat \<Rightarrow> byte list \<Rightarrow> byte list" where
  "stored_block final len bs =
     [of_bool final, word_of_nat (len mod 256), word_of_nat (len div 256),
      NOT (word_of_nat (len mod 256)), NOT (word_of_nat (len div 256))] @ bs"

text \<open>
  The payload of the IDAT chunk: the zlib header, one stored block of \<open>w * 4 + 1\<close> bytes
  for each scanline (the filter byte 0 and the row), the last one flagged final, and the
  Adler-32 checksum of the filter bytes and rows.
\<close>

definition zlib_stream :: "nat \<Rightarrow> nat \<Rightarrow> byte list \<Rightarrow> byte list" where
  "zlib_stream w h rgba =
     [0x78, 0x01]
     @ concat (map (\<lambda>y. stored_block (y + 1 = h) (w * 4 + 1) (0 # scanline w rgba y)) [0..<h])
     @ be32 (adler32 (concat (map (\<lambda>y. 0 # scanline w rgba y) [0..<h])))"

text \<open>
  A chunk after its length field: the type tag, the payload, and the CRC-32 of the tag
  and the payload.
\<close>

definition chunk_tail :: "byte list \<Rightarrow> byte list \<Rightarrow> byte list" where
  "chunk_tail tag payload = tag @ payload @ be32 (crc32 (tag @ payload))"

definition png_signature :: "byte list" where
  "png_signature = [137, 80, 78, 71, 13, 10, 26, 10]"

definition tag_IHDR :: "byte list" where
  "tag_IHDR = [73, 72, 68, 82]"

definition tag_IDAT :: "byte list" where
  "tag_IDAT = [73, 68, 65, 84]"

definition tag_IEND :: "byte list" where
  "tag_IEND = [73, 69, 78, 68]"

section \<open>The parts of the array of the PNG emitter\<close>

text \<open>
  The pieces \<^verbatim>\<open>rgbaToDataURL\<close> puts into \<open>bytes\<close>, each as the source computes it; the
  proofs below show that \<open>png_array\<close> is their concatenation.
\<close>

text \<open>The table as unsigned 32-bit values.\<close>

definition utable :: "int list" where
  "utable = map (take_bit 32) table"

text \<open>What the outer loop pushes for the row \<open>y\<close>.\<close>

definition row_ints :: "nat \<Rightarrow> nat \<Rightarrow> byte list \<Rightarrow> nat \<Rightarrow> int list" where
  "row_ints w h rgba y =
     [if y + 1 < h then 0 else 1, int32_of_nat (w * 4 + 1) AND 255, sar32 (int32_of_nat (w * 4 + 1)) 8,
      not32 (int32_of_nat (w * 4 + 1)) AND 255, sar32 (int32_of_nat (w * 4 + 1)) 8 XOR 255, 0]
     @ map (\<lambda>i. hash_int rgba i AND 255) [4 * w * y..<4 * w * y + 4 * w]"

text \<open>The four elements the checksum loop writes for the value \<open>c\<close>.\<close>

definition crc_ints :: "int \<Rightarrow> int list" where
  "crc_ints c = [shr32 c 24, sar32 c 16 AND 255, sar32 c 8 AND 255, c AND 255]"

text \<open>The elements 16 to 28, 33 to 36, 0 to 11 and 12 to 28 of the initial array.\<close>

definition ihdr_ints :: "nat \<Rightarrow> nat \<Rightarrow> int list" where
  "ihdr_ints w h = [0, 0, sar32 (int32_of_nat w) 8, int32_of_nat w AND 255, 0, 0,
          sar32 (int32_of_nat h) 8, int32_of_nat h AND 255, 8, 6, 0, 0, 0]"

definition idat_len_ints :: "nat \<Rightarrow> int list" where
  "idat_len_ints idat = [shr32 (int idat) 24, sar32 (int32_of_nat idat) 16 AND 255,
          sar32 (int32_of_nat idat) 8 AND 255, int32_of_nat idat AND 255]"

definition sig_ints :: "int list" where
  "sig_ints = [137, 80, 78, 71, 13, 10, 26, 10, 0, 0, 0, 13]"

definition ihdr_chunk_ints :: "nat \<Rightarrow> nat \<Rightarrow> int list" where
  "ihdr_chunk_ints w h = [73, 72, 68, 82] @ ihdr_ints w h"

text \<open>The last 12 elements pushed.\<close>

definition iend_ints :: "int list" where
  "iend_ints = [0, 0, 0, 0, 73, 69, 78, 68, 174, 66, 96, 130]"

text \<open>The four elements pushed from \<open>a\<close> and \<open>b\<close> after the loop.\<close>

definition adler_ints :: "nat \<Rightarrow> nat \<Rightarrow> byte list \<Rightarrow> int list" where
  "adler_ints w h rgba =
     (case fold (png_row_step w h rgba) [0..<h] (png_head w h, 1, 0, 0, w * 4 + 1 - 1) of
        (bytes, a, b, i, end) \<Rightarrow> [sar32 b 8, b AND 255, sar32 a 8, a AND 255])"

text \<open>The elements from 37 up to the checksum of the IDAT chunk.\<close>

definition idat_ints :: "nat \<Rightarrow> nat \<Rightarrow> byte list \<Rightarrow> int list" where
  "idat_ints w h rgba =
     [73, 68, 65, 84, 120, 1] @ concat (map (row_ints w h rgba) [0..<h]) @ adler_ints w h rgba"

section \<open>The loops of the encoder\<close>

declare tri_loop.simps [simp del]

lemma tri_loop_fold:
  "0 < n \<Longrightarrow> tri_loop n cy body cx s = fold body [cx..<n - cy] s"
proof (induction n cy body cx s rule: tri_loop.induct)
  case (1 n cy body cx s)
  show ?case
  proof (cases "cx < n - cy")
    case True
    then have less: "cx * n < n * (n - cy)" using 1(2) by (simp add: mult.commute)
    then have "tri_loop n cy body cx s = tri_loop n cy body (Suc cx) (body cx s)"
      by (subst tri_loop.simps) simp
    also have "\<dots> = fold body [Suc cx..<n - cy] (body cx s)"
      using 1 less by simp
    also have "\<dots> = fold body [cx..<n - cy] s"
      using True by (simp add: upt_conv_Cons)
    finally show ?thesis .
  next
    case False
    then have "\<not> cx * n < n * (n - cy)" using 1(2) by (simp add: mult.commute)
    then show ?thesis using False by (subst tri_loop.simps) simp
  qed
qed

lemma tri_loops_fold:
  "fold (\<lambda>cy s. tri_loop n cy (body cy) 0 s) [0..<n] s = fold (\<lambda>(cx, cy). body cy cx) (tri_indices n) s"
proof (cases "n = 0")
  case True
  then show ?thesis by (simp add: tri_indices_def)
next
  case False
  have "fold (\<lambda>cy s. tri_loop n cy (body cy) 0 s) cys s =
        fold (\<lambda>(cx, cy). body cy cx) (concat (map (\<lambda>cy. map (\<lambda>cx. (cx, cy)) [0..<n - cy]) cys)) s" for cys
    using False by (induction cys arbitrary: s) (simp_all add: tri_loop_fold fold_map comp_def)
  then show ?thesis by (simp add: tri_indices_def)
qed

lemma set_tri_indices: "set (tri_indices n) = {(cx, cy). cx * n < n * (n - cy)}"
proof -
  have "cx * n < n * (n - cy) \<longleftrightarrow> cy < n \<and> cx < n - cy" for cx cy
    by (cases "n = 0") (auto simp: mult.commute)
  then show ?thesis by (auto simp: tri_indices_def)
qed

lemma distinct_rows:
  "distinct cys \<Longrightarrow> distinct (concat (map (\<lambda>cy. map (\<lambda>cx. (cx, cy)) [0..<g cy]) cys))"
  by (induction cys) (auto simp: distinct_map inj_on_def)

lemma distinct_tri_indices: "distinct (tri_indices n)"
  unfolding tri_indices_def by (rule distinct_rows) simp

lemma length_ac_indices: "length (ac_indices n) = ac_count n"
proof -
  have "distinct (ac_indices n)" by (simp add: ac_indices_def distinct_tri_indices)
  then have "length (ac_indices n) = card (set (ac_indices n))" by (simp add: distinct_card)
  also have "set (ac_indices n) = {(cx, cy). cx * n < n * (n - cy) \<and> (cx, cy) \<noteq> (0, 0)}"
    by (auto simp: ac_indices_def set_tri_indices)
  finally show ?thesis by (simp add: ac_count_def)
qed

lemma ec_body_dc:
  "ec_body w h channel 0 0 (dc, ac, scale) = (dct_term w h channel 0 0, ac, scale)"
  by (simp add: ec_body_def)

lemma ec_body_ac:
  "(cx, cy) \<noteq> (0, 0) \<Longrightarrow> ec_body w h channel cy cx (dc, ac, scale) =
     (dc, ac @ [dct_term w h channel cx cy], nmax scale (nabs (dct_term w h channel cx cy)))"
  by (auto simp add: ec_body_def Let_def)

lemma ec_fold:
  "fold (\<lambda>(cx, cy). ec_body w h channel cy cx) ixs (dc, ac, scale) =
     (if (0, 0) \<in> set ixs then dct_term w h channel 0 0 else dc,
      ac @ map (\<lambda>(cx, cy). dct_term w h channel cx cy) (filter (\<lambda>c. c \<noteq> (0, 0)) ixs),
      fold (\<lambda>f s. nmax s (nabs f))
        (map (\<lambda>(cx, cy). dct_term w h channel cx cy) (filter (\<lambda>c. c \<noteq> (0, 0)) ixs)) scale)"
proof (induction ixs arbitrary: dc ac scale)
  case Nil
  then show ?case by simp
next
  case (Cons c ixs)
  obtain cx cy where c: "c = (cx, cy)" by (cases c)
  show ?case
  proof (cases "(cx, cy) = (0, 0)")
    case True
    then show ?thesis using c by (simp add: Cons ec_body_dc)
  next
    case False
    then show ?thesis using c by (auto simp add: Cons ec_body_ac)
  qed
qed

lemma encodeChannel_eq:
  "encodeChannel w h channel n =
     (let ac = ac_raw w h channel n;
          scale = fold (\<lambda>f s. nmax s (nabs f)) ac (Num 0)
      in (if 0 < n then dct_term w h channel 0 0 else Num 0,
          if truthy scale then map (\<lambda>a. nadd (Num 0.5) (nmul (ndiv (Num 0.5) scale) a)) ac else ac,
          scale))"
proof -
  have "(0, 0) \<in> set (tri_indices n) \<longleftrightarrow> 0 < n"
    by (simp add: set_tri_indices)
  then show ?thesis
  by (simp add: encodeChannel_def tri_loops_fold ec_fold ac_raw_def ac_indices_def Let_def)
qed

lemma length_encodeChannel:
  "length (fst (snd (encodeChannel w h channel n))) = ac_count n"
  by (simp add: encodeChannel_eq Let_def ac_raw_def length_ac_indices)

lemma length_array_set: "length (array_set a i v) = max (length a) (Suc i)"
  by (auto simp: array_set_def)

lemma write_ac_length:
  "length hash = ac_start + (k + 1) div 2 \<Longrightarrow>
   fold write_ac fs (hash, k) = (hash', k') \<Longrightarrow>
   k' = k + length fs \<and> length hash' = ac_start + (k + length fs + 1) div 2"
proof (induction fs arbitrary: hash k)
  case Nil
  then show ?case by simp
next
  case (Cons f fs)
  obtain hash1 where w: "write_ac f (hash, k) = (hash1, Suc k)"
    by (simp add: write_ac_def Let_def)
  then have "length hash1 = max (length hash) (Suc (ac_start + k div 2))"
    by (auto simp: write_ac_def Let_def length_array_set drop_bit_eq_div)
  then have "length hash1 = ac_start + (Suc k + 1) div 2"
    using Cons.prems(1) by (simp add: max_def)
  from Cons.IH [OF this] Cons.prems(2) w show ?case by simp
qed

lemma length_hash_array:
  "length (hash_array cfg w h rgba) = 5 + (totalAc cfg + 1) div 2"
proof -
  obtain l p q where lpq: "toLPQ w h rgba = (l, p, q)" by (cases "toLPQ w h rgba")
  obtain l_dc l_ac l_scale where el: "encodeChannel w h l (LUMINANCE_TERMS cfg) = (l_dc, l_ac, l_scale)"
    by (cases "encodeChannel w h l (LUMINANCE_TERMS cfg)")
  obtain p_dc p_ac p_scale where ep: "encodeChannel w h p (CHROMINANCE_TERMS cfg) = (p_dc, p_ac, p_scale)"
    by (cases "encodeChannel w h p (CHROMINANCE_TERMS cfg)")
  obtain q_dc q_ac q_scale where eq: "encodeChannel w h q (CHROMINANCE_TERMS cfg) = (q_dc, q_ac, q_scale)"
    by (cases "encodeChannel w h q (CHROMINANCE_TERMS cfg)")
  have ll: "length l_ac = ac_count (LUMINANCE_TERMS cfg)"
    using length_encodeChannel [of w h l "LUMINANCE_TERMS cfg"] el by simp
  have lp: "length p_ac = ac_count (CHROMINANCE_TERMS cfg)"
    using length_encodeChannel [of w h p "CHROMINANCE_TERMS cfg"] ep by simp
  have lq: "length q_ac = ac_count (CHROMINANCE_TERMS cfg)"
    using length_encodeChannel [of w h q "CHROMINANCE_TERMS cfg"] eq by simp
  define hash0 where "hash0 = (let header24 = header24_of l_dc p_dc q_dc l_scale;
            header16 = header16_of p_scale q_scale
        in [header24 AND 255, sar32 header24 8 AND 255, sar32 header24 16,
                    header16 AND 255, sar32 header16 8])"
  have h0: "length hash0 = ac_start + (0 + 1) div 2" by (simp add: hash0_def Let_def ac_start_def)
  obtain hash' k' where f: "fold write_ac (concat [l_ac, p_ac, q_ac]) (hash0, 0) = (hash', k')"
    by (cases "fold write_ac (concat [l_ac, p_ac, q_ac]) (hash0, 0)")
  from write_ac_length [OF h0 f]
  have "length hash' = 5 + (totalAc cfg + 1) div 2"
    by (simp add: ll lp lq totalAc_def ac_start_def)
  moreover have "hash_array cfg w h rgba = hash'"
    using f by (simp add: hash_array_def lpq el ep eq hash0_def Let_def)
  ultimately show ?thesis by simp
qed

lemma ceiling_half: "\<lceil>real t / 2\<rceil> = int ((t + 1) div 2)"
  by (simp add: ceiling_eq_iff) linarith

lemma ac_count_3: "ac_count 3 = 5"
  unfolding length_ac_indices [symmetric] by code_simp

lemma ac_count_4: "ac_count 4 = 9"
  unfolding length_ac_indices [symmetric] by code_simp

lemma ac_count_7: "ac_count 7 = 27"
  unfolding length_ac_indices [symmetric] by code_simp

section \<open>The length of the hash\<close>

text \<open>
  C1. For \<open>w\<close> and \<open>h\<close> in \<open>[1, 100]\<close>, a buffer of \<open>w * h * 4\<close> bytes and term
  counts in \<open>[1, 10]\<close>, \<^verbatim>\<open>rgbaToThumbHash\<close> returns a byte sequence of length
  \<open>5 + ceil(totalAc / 2)\<close>, where \<open>totalAc\<close> counts, for L with \<open>termsL\<close> and for P
  and Q with \<open>termsC\<close>, the pairs \<open>(cx, cy) \<noteq> (0, 0)\<close> with
  \<open>cx * n < n * (n - cy)\<close>.
\<close>

theorem hash_length:
  assumes "1 \<le> w" "w \<le> 100" "1 \<le> h" "h \<le> 100" "length rgba = w * h * 4" "valid_config cfg"
  shows "\<exists>hash. rgbaToThumbHash cfg w h rgba = Inr hash \<and>
           int (length hash) = 5 + \<lceil>real (totalAc cfg) / 2\<rceil>"
  using assms by (simp add: rgbaToThumbHash_def length_hash_array ceiling_half)

theorem hash_length_witness:
  "valid_config config_initial \<and>
   (\<exists>hash. rgbaToThumbHash config_initial 1 1 [255, 255, 255, 255] = Inr hash \<and> length hash = 24)"
  using hash_length [of 1 1 "[255, 255, 255, 255]" config_initial]
  by (simp add: valid_config_def config_initial_def totalAc_def ac_count_7 ac_count_3)

section \<open>The decoded raster\<close>

lemma write_pixel_snd: "snd (write_pixel cfg c acs y x (rgba, i)) = i + 4"
  by (simp add: write_pixel_def split: prod.splits)

lemma write_pixel_length: "length (fst (write_pixel cfg c acs y x (rgba, i))) = length rgba"
  by (simp add: write_pixel_def split: prod.splits)

lemma write_pixel_alpha:
  "i + 3 < length rgba \<Longrightarrow> fst (write_pixel cfg c acs y x (rgba, i)) ! (i + 3) = 255"
  by (simp add: write_pixel_def split: prod.splits)

lemma write_pixel_other:
  "k < i \<or> i + 4 \<le> k \<Longrightarrow> fst (write_pixel cfg c acs y x (rgba, i)) ! k = rgba ! k"
  by (auto simp add: write_pixel_def split: prod.splits)

lemma write_pixels:
  assumes "fold (\<lambda>(y, x). write_pixel cfg c acs y x) ps (rgba, i) = (rgba', i')"
  shows "i' = i + 4 * length ps \<and> length rgba' = length rgba \<and>
         (\<forall>k < i. rgba' ! k = rgba ! k) \<and>
         (\<forall>k < length ps. i + 4 * k + 3 < length rgba \<longrightarrow> rgba' ! (i + 4 * k + 3) = 255)"
  using assms
proof (induction ps arbitrary: rgba i)
  case Nil
  then show ?case by simp
next
  case (Cons a ps)
  obtain y x where a: "a = (y, x)" by (cases a)
  define rgba1 where "rgba1 = fst (write_pixel cfg c acs y x (rgba, i))"
  have step: "write_pixel cfg c acs y x (rgba, i) = (rgba1, i + 4)"
    using write_pixel_snd [of cfg c acs y x rgba i] by (simp add: rgba1_def prod_eq_iff)
  have len1: "length rgba1 = length rgba" by (simp add: rgba1_def write_pixel_length)
  from Cons.prems have rest: "fold (\<lambda>(y, x). write_pixel cfg c acs y x) ps (rgba1, i + 4) = (rgba', i')"
    by (simp add: a step)
  note ih = Cons.IH [OF rest]
  have low: "\<forall>k < i. rgba' ! k = rgba ! k"
  proof (intro allI impI)
    fix k assume "k < i"
    then have "rgba' ! k = rgba1 ! k" using ih by simp
    also have "\<dots> = rgba ! k" using \<open>k < i\<close> by (simp add: rgba1_def write_pixel_other)
    finally show "rgba' ! k = rgba ! k" .
  qed
  have alpha: "\<forall>k < length (a # ps). i + 4 * k + 3 < length rgba \<longrightarrow> rgba' ! (i + 4 * k + 3) = 255"
  proof (intro allI impI)
    fix k assume k: "k < length (a # ps)" and inr: "i + 4 * k + 3 < length rgba"
    show "rgba' ! (i + 4 * k + 3) = 255"
    proof (cases k)
      case 0
      then have "rgba' ! (i + 4 * k + 3) = rgba1 ! (i + 3)" using ih by simp
      also have "\<dots> = 255" using inr 0 by (simp add: rgba1_def write_pixel_alpha)
      finally show ?thesis .
    next
      case (Suc m)
      then have "m < length ps" using k by simp
      moreover have "i + 4 + 4 * m + 3 < length rgba1" using inr Suc len1 by simp
      ultimately have "rgba' ! (i + 4 + 4 * m + 3) = 255" using ih by blast
      then show ?thesis using Suc by (simp add: add.assoc)
    qed
  qed
  from ih len1 low alpha show ?case by simp
qed

lemma fold_product:
  "fold (\<lambda>y s. fold (f y) xs s) ys s = fold (\<lambda>(y, x). f y x) (List.product ys xs) s"
  by (induction ys arbitrary: s) (simp_all add: fold_map comp_def)

lemma thumbHashToRGBA_shape:
  "img_w (thumbHashToRGBA cfg hash) = 32 \<and> img_h (thumbHashToRGBA cfg hash) = 32 \<and>
   length (img_rgba (thumbHashToRGBA cfg hash)) = 4096 \<and>
   (\<forall>k < 1024. img_rgba (thumbHashToRGBA cfg hash) ! (4 * k + 3) = 255)"
proof -
  define c where "c = read_constants hash"
  define acs where "acs = decode_acs cfg hash"
  define ps where "ps = List.product [0..<32::nat] [0..<32::nat]"
  obtain rgba' i' where f: "fold (\<lambda>(y, x). write_pixel cfg c acs y x) ps (replicate 4096 0, 0) = (rgba', i')"
    by (cases "fold (\<lambda>(y, x). write_pixel cfg c acs y x) ps (replicate 4096 0, 0)")
  have t: "thumbHashToRGBA cfg hash = \<lparr>img_w = 32, img_h = 32, img_rgba = rgba'\<rparr>"
    using f by (simp add: thumbHashToRGBA_def Let_def fold_product c_def acs_def ps_def)
  have "length ps = 1024" by (simp add: ps_def)
  with write_pixels [OF f] have "length rgba' = 4096" and "\<forall>k < 1024. rgba' ! (4 * k + 3) = 255"
    by simp_all
  with t show ?thesis by simp
qed

text \<open>
  C2. For a hash that \<^verbatim>\<open>rgbaToThumbHash\<close> produces from a valid input (\<open>w\<close> and
  \<open>h\<close> in \<open>[1, 100]\<close>, \<open>w * h * 4\<close> bytes), \<^verbatim>\<open>thumbHashToRGBA\<close> returns
  width 32, height 32 and a buffer of \<open>32 * 32 * 4 = 4096\<close> bytes whose every fourth
  byte from index 3 on, the alpha sample, is 255.
\<close>

theorem decode_shape:
  assumes "1 \<le> w" "w \<le> 100" "1 \<le> h" "h \<le> 100" "length rgba = w * h * 4"
  shows "\<exists>hash. rgbaToThumbHash cfg w h rgba = Inr hash \<and>
           img_w (thumbHashToRGBA cfg hash) = 32 \<and> img_h (thumbHashToRGBA cfg hash) = 32 \<and>
           length (img_rgba (thumbHashToRGBA cfg hash)) = 32 * 32 * 4 \<and>
           (\<forall>k < 32 * 32. img_rgba (thumbHashToRGBA cfg hash) ! (4 * k + 3) = 255)"
  using assms thumbHashToRGBA_shape by (simp add: rgbaToThumbHash_def)

theorem decode_shape_witness:
  "\<exists>hash. rgbaToThumbHash config_initial 1 1 [255, 255, 255, 255] = Inr hash \<and>
      img_w (thumbHashToRGBA config_initial hash) = 32 \<and>
      img_h (thumbHashToRGBA config_initial hash) = 32 \<and>
      length (img_rgba (thumbHashToRGBA config_initial hash)) = 4096 \<and>
      img_rgba (thumbHashToRGBA config_initial hash) ! 3 = 255 \<and>
      img_rgba (thumbHashToRGBA config_initial hash) ! 4095 = 255"
proof -
  obtain hash where h: "rgbaToThumbHash config_initial 1 1 [255, 255, 255, 255] = Inr hash"
    and s: "img_w (thumbHashToRGBA config_initial hash) = 32"
      "img_h (thumbHashToRGBA config_initial hash) = 32"
      "length (img_rgba (thumbHashToRGBA config_initial hash)) = 32 * 32 * 4"
    and a: "\<forall>k < 32 * 32. img_rgba (thumbHashToRGBA config_initial hash) ! (4 * k + 3) = 255"
    using decode_shape [of 1 1 "[255, 255, 255, 255]" config_initial] by auto
  have "(0::nat) < 32 * 32" and "(1023::nat) < 32 * 32" by simp_all
  then have "img_rgba (thumbHashToRGBA config_initial hash) ! (4 * 0 + 3) = 255"
    and "img_rgba (thumbHashToRGBA config_initial hash) ! (4 * 1023 + 3) = 255"
    using a by blast+
  with h s show ?thesis by simp
qed

section \<open>The dimension check\<close>

text \<open>
  C6. \<^verbatim>\<open>rgbaToThumbHash\<close> raises the dimension error if and only if \<open>w > 100\<close> or
  \<open>h > 100\<close>: it fails at \<open>w = 101\<close> and at \<open>h = 101\<close>, succeeds at
  \<open>w = h = 100\<close>, and returns a hash, raising no error, exactly within the limit.
\<close>

theorem dimension_error:
  "(rgbaToThumbHash cfg w h rgba = Inl DimensionError) = (100 < w \<or> 100 < h) \<and>
   (\<exists>hash. rgbaToThumbHash cfg w h rgba = Inr hash) = (w \<le> 100 \<and> h \<le> 100) \<and>
   rgbaToThumbHash cfg 101 h rgba = Inl DimensionError \<and>
   rgbaToThumbHash cfg w 101 rgba = Inl DimensionError \<and>
   (\<exists>hash. rgbaToThumbHash cfg 100 100 rgba = Inr hash)"
  by (auto simp add: rgbaToThumbHash_def)

section \<open>The reference term counts\<close>

text \<open>
  C8 (17 AC coefficients and a hash of 14 bytes at \<open>termsL = 4\<close>, \<open>termsC = 3\<close>) is what
  the source documents and not what it does. The docstring of \<^verbatim>\<open>rgbaToThumbHash\<close>
  promises 14 bytes, and the comments of the two constants count \<open>9 + 4 + 4 = 17\<close>
  coefficients; the loops enumerate \<open>9 + 5 + 5 = 19\<close> AC coefficients there, and the hash
  of a white pixel has 15 bytes.
\<close>

theorem reference_length_counterexample:
  "totalAc config_reference = 19 \<and>
   length (projr (rgbaToThumbHash config_reference 1 1 [255, 255, 255, 255])) = 15"
  by (simp add: rgbaToThumbHash_def length_hash_array totalAc_def config_reference_def
      ac_count_4 ac_count_3)

text \<open>
  C8, the code on every valid input. At the term counts \<open>termsL = 4\<close> and
  \<open>termsC = 3\<close> the loops enumerate 19 AC coefficients in total across L, P and Q, and
  \<^verbatim>\<open>rgbaToThumbHash\<close> returns 15 bytes, one more than it documents.
\<close>

theorem reference_length:
  assumes "1 \<le> w" "w \<le> 100" "1 \<le> h" "h \<le> 100" "length rgba = w * h * 4"
  shows "totalAc config_reference = 19 \<and>
    (\<exists>hash. rgbaToThumbHash config_reference w h rgba = Inr hash \<and> length hash = 15)"
  using assms
  by (simp add: rgbaToThumbHash_def length_hash_array totalAc_def config_reference_def
      ac_count_4 ac_count_3)

theorem reference_length_witness:
  "totalAc config_reference = 19 \<and>
    (\<exists>hash. rgbaToThumbHash config_reference 2 1 [255, 255, 255, 255, 0, 0, 0, 255] = Inr hash \<and>
       length hash = 15)"
  using reference_length [of 2 1 "[255, 255, 255, 255, 0, 0, 0, 255]"] by simp

section \<open>Bitwise operations as arithmetic\<close>

lemma hash_int_bounds: "0 \<le> hash_int hash j" "hash_int hash j < 256"
proof -
  have "uint (hash ! j) < 2 ^ LENGTH(8)" by (rule uint_bounded)
  then show "0 \<le> hash_int hash j" "hash_int hash j < 256" by (simp_all add: hash_int_def)
qed

lemma wrap32_id: "- (2 ^ 31) \<le> k \<Longrightarrow> k < 2 ^ 31 \<Longrightarrow> wrap32 k = k"
  by (simp add: wrap32_def signed_take_bit_int_eq_self)

lemma shl32_small:
  assumes "0 \<le> a" "a < 2 ^ m" "m + k \<le> 31"
  shows "shl32 a k = a * 2 ^ k"
proof -
  have k: "k mod 32 = k" using assms(3) by simp
  have "a * 2 ^ k < 2 ^ m * 2 ^ k" using assms(2) by simp
  also have "\<dots> = 2 ^ (m + k)" by (simp add: power_add)
  also have "\<dots> \<le> (2::int) ^ 31" using assms(3) by (intro power_increasing) simp_all
  finally have "a * 2 ^ k < 2 ^ 31" .
  moreover have "0 \<le> a * 2 ^ k" using assms(1) by simp
  ultimately show ?thesis
    by (simp add: shl32_def k push_bit_eq_mult wrap32_id)
qed

lemma or_shifted:
  fixes a b :: int
  assumes "0 \<le> a" "a < 2 ^ k"
  shows "a OR b * 2 ^ k = a + b * 2 ^ k"
proof -
  have "take_bit k a = a" using assms by (simp add: take_bit_int_eq_self)
  then have "a OR push_bit k b = concat_bit k a b" by (simp add: concat_bit_def)
  also have "\<dots> = take_bit k a + push_bit k b" by (rule concat_bit_eq)
  finally show ?thesis using \<open>take_bit k a = a\<close> by (simp add: push_bit_eq_mult)
qed

lemma and_low_bits: "(a::int) AND 63 = a mod 64" "(a::int) AND 31 = a mod 32"
  "(a::int) AND 15 = a mod 16" "(a::int) AND 255 = a mod 256"
proof -
  have "a AND mask 6 = a mod 2 ^ 6" "a AND mask 5 = a mod 2 ^ 5" "a AND mask 4 = a mod 2 ^ 4"
    "a AND mask 8 = a mod 2 ^ 8"
    by (simp_all only: take_bit_eq_mask [symmetric] take_bit_eq_mod)
  then show "a AND 63 = a mod 64" "a AND 31 = a mod 32" "a AND 15 = a mod 16" "a AND 255 = a mod 256"
    by (simp_all add: mask_eq_exp_minus_1)
qed

section \<open>The decoder reads the header and the nibbles\<close>

lemma header24_read_eq: "header24_read hash = header24_value hash"
proof -
  note b = hash_int_bounds [of hash]
  have s1: "shl32 (hash_int hash 1) 8 = hash_int hash 1 * 2 ^ 8"
    using b [of 1] by (intro shl32_small [where m = 8]) simp_all
  have s2: "shl32 (hash_int hash 2) 16 = hash_int hash 2 * 2 ^ 16"
    using b [of 2] by (intro shl32_small [where m = 8]) simp_all
  have o1: "hash_int hash 0 OR hash_int hash 1 * 2 ^ 8 = hash_int hash 0 + hash_int hash 1 * 2 ^ 8"
    using b [of 0] by (intro or_shifted) simp_all
  have "0 \<le> hash_int hash 0 + hash_int hash 1 * 2 ^ 8" "hash_int hash 0 + hash_int hash 1 * 2 ^ 8 < 2 ^ 16"
    using b [of 0] b [of 1] by simp_all
  then have o2: "(hash_int hash 0 + hash_int hash 1 * 2 ^ 8) OR hash_int hash 2 * 2 ^ 16 =
      hash_int hash 0 + hash_int hash 1 * 2 ^ 8 + hash_int hash 2 * 2 ^ 16"
    by (intro or_shifted)
  show ?thesis
    unfolding header24_read_def header24_value_def s1 s2 o1 o2 by simp
qed

lemma header16_read_eq: "header16_read hash = header16_value hash"
proof -
  note b = hash_int_bounds [of hash]
  have s1: "shl32 (hash_int hash 4) 8 = hash_int hash 4 * 2 ^ 8"
    using b [of 4] by (intro shl32_small [where m = 8]) simp_all
  have o1: "hash_int hash 3 OR hash_int hash 4 * 2 ^ 8 = hash_int hash 3 + hash_int hash 4 * 2 ^ 8"
    using b [of 3] by (intro or_shifted) simp_all
  show ?thesis
    unfolding header16_read_def header16_value_def s1 o1 by simp
qed

lemma sar32_div: "k < 32 \<Longrightarrow> sar32 a k = a div 2 ^ k"
  by (simp add: sar32_def drop_bit_eq_div)

lemma read_constants_eq:
  "read_constants hash =
     \<lparr>hdr_l_dc = Num (real_of_int (header24_value hash mod 64) / 63),
      hdr_p_dc = Num (real_of_int (header24_value hash div 2 ^ 6 mod 64) / 31.5 - 1),
      hdr_q_dc = Num (real_of_int (header24_value hash div 2 ^ 12 mod 64) / 31.5 - 1),
      hdr_l_scale = Num (real_of_int (header24_value hash div 2 ^ 18 mod 32) / 31),
      hdr_p_scale = Num (real_of_int (header16_value hash div 2 ^ 3 mod 64) / 63),
      hdr_q_scale = Num (real_of_int (header16_value hash div 2 ^ 9 mod 64) / 63)\<rparr>"
  by (simp add: read_constants_def Let_def header24_read_eq header16_read_eq and_low_bits
      sar32_div num_of_int_def nsub_def)

lemma read_ac_eq:
  "read_ac hash (Num scale) (ac, k) = (ac @ [dequantize hash scale k], Suc k)"
proof -
  have "sar32 (hash_int hash (ac_start + drop_bit 1 k)) (push_bit 2 (k AND 1)) AND 15 = nibble hash k"
  proof (cases "even k")
    case True
    then have "k AND 1 = 0" by (simp add: and_one_eq)
    then show ?thesis using True
      by (simp add: nibble_def and_low_bits sar32_def ac_start_def drop_bit_eq_div)
  next
    case False
    then have "k AND 1 = 1" by (simp add: and_one_eq mod_2_eq_odd)
    moreover have "(if even k then 1 else 16) = (16::int)" using False by simp
    ultimately show ?thesis
      by (simp add: nibble_def and_low_bits sar32_def ac_start_def drop_bit_eq_div push_bit_eq_mult)
  qed
  then show ?thesis
    by (simp add: read_ac_def dequantize_def num_of_int_def nsub_def nmul_def)
qed

lemma read_ac_fold:
  "fold (\<lambda>c. read_ac hash (Num scale)) xs (ac, k) =
     (ac @ map (\<lambda>j. dequantize hash scale (k + j)) [0..<length xs], k + length xs)"
proof (induction xs arbitrary: ac k)
  case Nil
  then show ?case by simp
next
  case (Cons x xs)
  have "map (\<lambda>j. dequantize hash scale (k + j)) [0..<Suc (length xs)] =
        dequantize hash scale k # map (\<lambda>j. dequantize hash scale (Suc k + j)) [0..<length xs]"
    by (simp add: upt_conv_Cons map_Suc_upt [symmetric] del: upt_Suc)
  then show ?case by (simp add: read_ac_eq Cons.IH)
qed

lemma filter_row:
  "filter (\<lambda>c. c \<noteq> (0, 0)) (map (\<lambda>cx. (cx, cy)) [0..<m]) =
     map (\<lambda>cx. (cx, cy)) [(if cy \<noteq> 0 then 0 else 1)..<m]"
proof (cases "cy = 0")
  case True
  show ?thesis
  proof (cases m)
    case 0
    then show ?thesis by simp
  next
    case (Suc m')
    have "filter (\<lambda>c. c \<noteq> (0, 0)) (map (\<lambda>cx. (cx, 0::nat)) [Suc 0..<Suc m']) = map (\<lambda>cx. (cx, 0)) [Suc 0..<Suc m']"
      by (rule filter_True) auto
    then show ?thesis using True Suc by (simp add: upt_conv_Cons del: upt_Suc)
  qed
next
  case False
  have "filter (\<lambda>c. c \<noteq> (0, 0)) (map (\<lambda>cx. (cx, cy)) [0..<m]) = map (\<lambda>cx. (cx, cy)) [0..<m]"
    by (rule filter_True) (use False in auto)
  then show ?thesis using False by simp
qed

lemma ac_indices_rows:
  "ac_indices n = concat (map (\<lambda>cy. map (\<lambda>cx. (cx, cy)) [(if cy \<noteq> 0 then 0 else 1)..<n - cy]) [0..<n])"
  by (simp add: ac_indices_def tri_indices_def filter_concat comp_def filter_row)

lemma ac_loops_fold:
  "fold (\<lambda>cy s. tri_loop n cy (body cy) (if cy \<noteq> 0 then 0 else 1) s) [0..<n] s =
     fold (\<lambda>(cx, cy). body cy cx) (ac_indices n) s"
proof (cases "n = 0")
  case True
  then show ?thesis by (simp add: ac_indices_rows)
next
  case False
  have "fold (\<lambda>cy s. tri_loop n cy (body cy) (if cy \<noteq> 0 then 0 else 1) s) cys s =
        fold (\<lambda>(cx, cy). body cy cx)
          (concat (map (\<lambda>cy. map (\<lambda>cx. (cx, cy)) [(if cy \<noteq> 0 then 0 else 1)..<n - cy]) cys)) s" for cys
    using False by (induction cys arbitrary: s) (simp_all add: tri_loop_fold fold_map comp_def)
  then show ?thesis by (simp add: ac_indices_rows)
qed

lemma decodeChannel_eq:
  "decodeChannel hash n (Num scale) k =
     (map (\<lambda>j. dequantize hash scale (k + j)) [0..<length (ac_indices n)], k + length (ac_indices n))"
proof -
  have eq: "(\<lambda>(cx, cy). read_ac hash (Num scale)) = (\<lambda>c. read_ac hash (Num scale))"
    by auto
  show ?thesis
    unfolding decodeChannel_def ac_loops_fold eq by (simp add: read_ac_fold)
qed

section \<open>The encoder computes with numbers, not with NaN\<close>

text \<open>
  This section and the five after it relate the encoder of the model to closed formulas
  over the reals and bound them. They are facts of exact arithmetic, kept for the bound
  on the header word in the section on the alpha bit.
\<close>

lemma nops [simp]:
  "nadd (Num a) (Num b) = Num (a + b)"
  "nsub (Num a) (Num b) = Num (a - b)"
  "nmul (Num a) (Num b) = Num (a * b)"
  "nmax (Num a) (Num b) = Num (max a b)"
  "nmin (Num a) (Num b) = Num (min a b)"
  by (simp_all add: nadd_def nsub_def nmul_def nmax_def nmin_def)

lemma byte_num_Num: "j < length rgba \<Longrightarrow> byte_num rgba j = Num (sample rgba j)"
  by (simp add: byte_num_def sample_def)

lemma fold_nadd:
  "(\<And>x. x < n \<Longrightarrow> g x = Num (r x)) \<Longrightarrow>
   fold (\<lambda>x f. nadd f (g x)) [0..<n] (Num f0) = Num (f0 + (\<Sum>x<n. r x))"
  by (induction n) simp_all

lemma avg_step_Num:
  "4 * i + 3 < length rgba \<Longrightarrow>
   avg_step rgba i (Num a, Num b, Num c) =
     (Num (a + weighted rgba 0 i), Num (b + weighted rgba 1 i), Num (c + weighted rgba 2 i))"
  by (simp add: avg_step_def Let_def byte_num_Num weighted_def alpha_of_def)

lemma fold_avg_step:
  "4 * n \<le> length rgba \<Longrightarrow>
   fold (avg_step rgba) [0..<n] (Num a, Num b, Num c) =
     (Num (a + (\<Sum>i<n. weighted rgba 0 i)), Num (b + (\<Sum>i<n. weighted rgba 1 i)),
      Num (c + (\<Sum>i<n. weighted rgba 2 i)))"
  by (induction n) (simp_all add: avg_step_Num)

lemma average_Num:
  assumes "valid_input w h rgba"
  shows "average w h rgba =
    (Num (avg_color w h rgba 0), Num (avg_color w h rgba 1), Num (avg_color w h rgba 2))"
proof -
  have "4 * (w * h) \<le> length rgba" and "w * h \<noteq> 0"
    using assms by (simp_all add: valid_input_def)
  then show ?thesis
    by (simp add: average_def fold_avg_step avg_color_def)
qed

lemma lpq_pixel_Num:
  assumes "4 * i + 3 < length rgba"
  shows "lpq_pixel (Num (avg_color w h rgba 0), Num (avg_color w h rgba 1), Num (avg_color w h rgba 2)) rgba i =
    (Num (l_value w h rgba i), Num (p_value w h rgba i), Num (q_value w h rgba i))"
  using assms
  by (simp add: lpq_pixel_def Let_def byte_num_Num l_value_def p_value_def q_value_def
      composite_def weighted_def alpha_of_def)

lemma toLPQ_Num:
  assumes "valid_input w h rgba"
  shows "toLPQ w h rgba =
    (map (\<lambda>i. Num (l_value w h rgba i)) [0..<w * h],
     map (\<lambda>i. Num (p_value w h rgba i)) [0..<w * h],
     map (\<lambda>i. Num (q_value w h rgba i)) [0..<w * h])"
proof -
  have "4 * i + 3 < length rgba" if "i < w * h" for i
    using assms that by (simp add: valid_input_def)
  then have "map (lpq_pixel (average w h rgba) rgba) [0..<w * h] =
      map (\<lambda>i. (Num (l_value w h rgba i), Num (p_value w h rgba i), Num (q_value w h rgba i))) [0..<w * h]"
    unfolding average_Num [OF assms] by (intro map_cong refl lpq_pixel_Num) simp
  then show ?thesis
    by (simp add: toLPQ_def Let_def comp_def)
qed

lemma fold_nadd2:
  assumes "\<And>x y. x < w \<Longrightarrow> y < h \<Longrightarrow> g y x = Num (r y x)"
  shows "k \<le> h \<Longrightarrow>
    fold (\<lambda>y f. fold (\<lambda>x f. nadd f (g y x)) [0..<w] f) [0..<k] (Num f0) =
      Num (f0 + (\<Sum>y<k. \<Sum>x<w. r y x))"
proof (induction k)
  case 0
  then show ?case by simp
next
  case (Suc k)
  then have "k < h" by simp
  then have "fold (\<lambda>x f. nadd f (g k x)) [0..<w] (Num a) = Num (a + (\<Sum>x<w. r k x))" for a
    by (intro fold_nadd assms)
  with Suc show ?case by simp
qed

lemma index_in_range:
  assumes "x < w" "y < h"
  shows "x + y * w < w * (h::nat)"
proof -
  have "x + y * w < w + y * w" using assms(1) by simp
  also have "\<dots> = w * Suc y" by simp
  also have "\<dots> \<le> w * h" using assms(2) by (intro mult_le_mono2) simp
  finally show ?thesis .
qed

lemma dct_term_Num:
  assumes "length channel = w * h" "0 < w" "0 < h"
  shows "dct_term w h (map Num channel) cx cy = Num (dct w h channel cx cy)"
proof -
  define fx where "fx = map (\<lambda>x. Num (cos (pi / real w * real cx * (real x + 0.5)))) [0..<w]"
  define g where "g y x = nmul (nmul (nth_num (map Num channel) (x + y * w)) (nth_num fx x))
                  (Num (cos (pi / real h * real cy * (real y + 0.5))))" for y x
  define r where "r y x = channel ! (x + y * w) * cos (pi / real w * real cx * (real x + 0.5))
                                       * cos (pi / real h * real cy * (real y + 0.5))" for y x
  have gr: "g y x = Num (r y x)" if "x < w" "y < h" for x y
    using that index_in_range [OF that] assms(1) by (simp add: g_def r_def nth_num_def fx_def)
  have "dct_term w h (map Num channel) cx cy =
      ndiv (fold (\<lambda>y f. fold (\<lambda>x f. nadd f (g y x)) [0..<w] f) [0..<h] (Num 0)) (Num (real (w * h)))"
    by (simp only: dct_term_def Let_def fx_def [symmetric] g_def)
  also have "\<dots> = ndiv (Num (0 + (\<Sum>y<h. \<Sum>x<w. r y x))) (Num (real (w * h)))"
    by (subst fold_nadd2 [where r = r and h = h]) (simp_all add: gr)
  also have "\<dots> = Num (dct w h channel cx cy)"
    using assms(2,3) by (simp add: dct_def r_def)
  finally show ?thesis .
qed

section \<open>The forward transform\<close>

lemma Max_insert_max:
  fixes s x :: real
  assumes "finite A"
  shows "Max (insert (max s x) A) = Max (insert s (insert x A))"
proof (cases "A = {}")
  case True
  then show ?thesis by simp
next
  case False
  have "Max (insert s (insert x A)) = max s (Max (insert x A))"
    using assms by (intro Max_insert) simp_all
  also have "Max (insert x A) = max x (Max A)"
    using assms False by (intro Max_insert)
  finally have "Max (insert s (insert x A)) = max (max s x) (Max A)"
    by (simp only: max.assoc)
  moreover have "Max (insert (max s x) A) = max (max s x) (Max A)"
    using assms False by (intro Max_insert)
  ultimately show ?thesis by simp
qed

lemma fold_nmax:
  "fold (\<lambda>f s. nmax s (nabs f)) (map Num xs) (Num s) = Num (Max (insert s ((\<lambda>a. \<bar>a\<bar>) ` set xs)))"
proof (induction xs arbitrary: s)
  case Nil
  then show ?case by simp
next
  case (Cons x xs)
  have "fold (\<lambda>f s. nmax s (nabs f)) (map Num (x # xs)) (Num s) =
      fold (\<lambda>f s. nmax s (nabs f)) (map Num xs) (Num (max s \<bar>x\<bar>))"
    by simp
  also have "\<dots> = Num (Max (insert (max s \<bar>x\<bar>) ((\<lambda>a. \<bar>a\<bar>) ` set xs)))"
    by (rule Cons.IH)
  also have "Max (insert (max s \<bar>x\<bar>) ((\<lambda>a. \<bar>a\<bar>) ` set xs)) =
      Max (insert s (insert \<bar>x\<bar> ((\<lambda>a. \<bar>a\<bar>) ` set xs)))"
    by (rule Max_insert_max) simp
  finally show ?case by simp
qed

lemma ac_scale_nonneg: "0 \<le> ac_scale acs"
  by (simp add: ac_scale_def)

lemma ac_scale_ge: "a \<in> set acs \<Longrightarrow> \<bar>a\<bar> \<le> ac_scale acs"
  by (simp add: ac_scale_def)

lemma ac_scale_le: "(\<And>a. a \<in> set acs \<Longrightarrow> \<bar>a\<bar> \<le> m) \<Longrightarrow> 0 \<le> m \<Longrightarrow> ac_scale acs \<le> m"
  by (auto simp add: ac_scale_def)

lemma ac_raw_Num:
  assumes "length channel = w * h" "0 < w" "0 < h"
  shows "ac_raw w h (map Num channel) n = map Num (ac_terms w h channel n)"
  by (simp add: ac_raw_def ac_terms_def dct_term_Num [OF assms] case_prod_unfold)

lemma fold_nmax_scale:
  "fold (\<lambda>f s. nmax s (nabs f)) (map Num xs) (Num 0) = Num (ac_scale xs)"
  by (simp only: fold_nmax ac_scale_def)

lemma encodeChannel_Num:
  assumes "length channel = w * h" "0 < w" "0 < h" "0 < n"
  shows "encodeChannel w h (map Num channel) n =
     (Num (dct w h channel 0 0),
      map Num (normalize_ac (ac_scale (ac_terms w h channel n)) (ac_terms w h channel n)),
      Num (ac_scale (ac_terms w h channel n)))"
proof -
  define acs where "acs = ac_terms w h channel n"
  have pos: "(ac_scale acs \<noteq> 0) = (0 < ac_scale acs)"
    using ac_scale_nonneg [of acs] by linarith
  have norm: "(if truthy (Num (ac_scale acs))
        then map (\<lambda>a. nadd (Num 0.5) (nmul (ndiv (Num 0.5) (Num (ac_scale acs))) a)) (map Num acs)
        else map Num acs) = map Num (normalize_ac (ac_scale acs) acs)"
    by (simp add: normalize_ac_def pos)
  have e: "encodeChannel w h (map Num channel) n =
      (dct_term w h (map Num channel) 0 0,
       if truthy (Num (ac_scale acs))
        then map (\<lambda>a. nadd (Num 0.5) (nmul (ndiv (Num 0.5) (Num (ac_scale acs))) a)) (map Num acs)
        else map Num acs,
       Num (ac_scale acs))"
    using assms(4)
    by (simp only: encodeChannel_eq Let_def ac_raw_Num [OF assms(1-3)] fold_nmax_scale acs_def if_True)
  have "encodeChannel w h (map Num channel) n =
      (Num (dct w h channel 0 0), map Num (normalize_ac (ac_scale acs) acs), Num (ac_scale acs))"
    by (simp only: e norm dct_term_Num [OF assms(1-3)])
  then show ?thesis
    by (simp only: acs_def)
qed

section \<open>Ranges of the channels and the coefficients\<close>

lemma sample_bounds: "0 \<le> sample rgba j" "sample rgba j \<le> 255"
proof -
  have "uint (rgba ! j) < 2 ^ LENGTH(8)" by (rule uint_bounded)
  then have "uint (rgba ! j) \<le> 255" by simp
  then show "sample rgba j \<le> 255" unfolding sample_def by linarith
  have "0 \<le> uint (rgba ! j)" by simp
  then show "0 \<le> sample rgba j" unfolding sample_def by linarith
qed

lemma alpha_bounds: "0 \<le> alpha_of rgba i" "alpha_of rgba i \<le> 1"
  using sample_bounds [of rgba "4 * i + 3"] by (simp_all add: alpha_of_def)

lemma weighted_bounds: "0 \<le> weighted rgba c i" "weighted rgba c i \<le> alpha_of rgba i"
proof -
  note a = alpha_bounds [of rgba i] and s = sample_bounds [of rgba "4 * i + c"]
  have w: "weighted rgba c i = alpha_of rgba i * (sample rgba (4 * i + c) / 255)"
    by (simp add: weighted_def)
  show "0 \<le> weighted rgba c i" unfolding w using a s by simp
  have "alpha_of rgba i * (sample rgba (4 * i + c) / 255) \<le> alpha_of rgba i * 1"
    using a s by (intro mult_left_mono) simp_all
  then show "weighted rgba c i \<le> alpha_of rgba i" unfolding w by simp
qed

lemma avg_color_bounds:
  assumes "0 < w * h"
  shows "0 \<le> avg_color w h rgba c" "avg_color w h rgba c \<le> 1"
proof -
  have "0 \<le> (\<Sum>i<w * h. weighted rgba c i)"
    by (intro sum_nonneg) (simp add: weighted_bounds)
  then show "0 \<le> avg_color w h rgba c" by (simp add: avg_color_def)
  have "weighted rgba c i \<le> 1" for i
    using weighted_bounds(2) [of rgba c i] alpha_bounds(2) [of rgba i] by linarith
  then have "(\<Sum>i<w * h. weighted rgba c i) \<le> (\<Sum>i<w * h. 1)"
    by (intro sum_mono)
  then show "avg_color w h rgba c \<le> 1"
    using assms by (simp add: avg_color_def)
qed

lemma composite_bounds:
  assumes "0 < w * h"
  shows "0 \<le> composite w h rgba c i" "composite w h rgba c i \<le> 1"
proof -
  note a = alpha_bounds [of rgba i] and v = avg_color_bounds [OF assms, of rgba c]
    and g = weighted_bounds [of rgba c i]
  have "0 \<le> avg_color w h rgba c * (1 - alpha_of rgba i)" using a v by simp
  then show "0 \<le> composite w h rgba c i" using g by (simp add: composite_def)
  have "avg_color w h rgba c * (1 - alpha_of rgba i) \<le> 1 * (1 - alpha_of rgba i)"
    using a v by (intro mult_right_mono) simp_all
  then show "composite w h rgba c i \<le> 1" using g by (simp add: composite_def)
qed

lemma lpq_bounds:
  assumes "0 < w * h"
  shows "0 \<le> l_value w h rgba i" "l_value w h rgba i \<le> 1"
    "\<bar>p_value w h rgba i\<bar> \<le> 1" "\<bar>q_value w h rgba i\<bar> \<le> 1"
proof -
  note c = composite_bounds [OF assms, of rgba 0 i] composite_bounds [OF assms, of rgba 1 i]
    composite_bounds [OF assms, of rgba 2 i]
  show "0 \<le> l_value w h rgba i" unfolding l_value_def using c by simp
  show "l_value w h rgba i \<le> 1" unfolding l_value_def using c by simp
  show "\<bar>p_value w h rgba i\<bar> \<le> 1" unfolding p_value_def abs_le_iff using c by (simp add: field_simps)
  show "\<bar>q_value w h rgba i\<bar> \<le> 1" unfolding q_value_def abs_le_iff using c by simp
qed

lemma dct_bound:
  assumes "0 < w" "0 < h" "\<And>i. i < w * h \<Longrightarrow> \<bar>channel ! i\<bar> \<le> m"
  shows "\<bar>dct w h channel cx cy\<bar> \<le> m"
proof -
  define t where "t y x = channel ! (x + y * w) * cos (pi / real w * real cx * (real x + 0.5))
                                       * cos (pi / real h * real cy * (real y + 0.5))" for y x
  have bound_t: "\<bar>t y x\<bar> \<le> m" if "x < w" "y < h" for x y
  proof -
    have "\<bar>t y x\<bar> = \<bar>channel ! (x + y * w)\<bar> * \<bar>cos (pi / real w * real cx * (real x + 0.5))\<bar>
                        * \<bar>cos (pi / real h * real cy * (real y + 0.5))\<bar>"
      by (simp add: t_def abs_mult)
    also have "\<dots> \<le> \<bar>channel ! (x + y * w)\<bar> * 1 * 1"
      by (intro mult_mono mult_nonneg_nonneg) simp_all
    also have "\<dots> \<le> m" using assms(3) [OF index_in_range [OF that]] by simp
    finally show ?thesis .
  qed
  have "\<bar>\<Sum>y<h. \<Sum>x<w. t y x\<bar> \<le> (\<Sum>y<h. \<bar>\<Sum>x<w. t y x\<bar>)"
    by (rule sum_abs)
  also have "\<dots> \<le> (\<Sum>y<h. \<Sum>x<w. \<bar>t y x\<bar>)"
    by (intro sum_mono sum_abs)
  also have "\<dots> \<le> (\<Sum>y<h. \<Sum>x<w. m)"
    by (intro sum_mono bound_t) simp_all
  also have "\<dots> = real (w * h) * m" by simp
  finally have "\<bar>\<Sum>y<h. \<Sum>x<w. t y x\<bar> \<le> real (w * h) * m" .
  moreover have "dct w h channel cx cy = (\<Sum>y<h. \<Sum>x<w. t y x) / real (w * h)"
    by (simp add: dct_def t_def)
  moreover have "0 < real (w * h)" using assms(1,2) by simp
  ultimately show ?thesis
    by (simp add: pos_divide_le_eq mult.commute del: of_nat_mult)
qed

lemma dct_dc_nonneg:
  assumes "\<And>i. i < w * h \<Longrightarrow> 0 \<le> channel ! i"
  shows "0 \<le> dct w h channel 0 0"
proof -
  have "0 \<le> (\<Sum>y<h. \<Sum>x<w. channel ! (x + y * w))"
    by (intro sum_nonneg assms index_in_range) simp_all
  then show ?thesis by (simp add: dct_def)
qed

lemma ac_scale_bound:
  assumes "0 < w" "0 < h" "\<And>i. i < w * h \<Longrightarrow> \<bar>channel ! i\<bar> \<le> m" "0 \<le> m"
  shows "ac_scale (ac_terms w h channel n) \<le> m"
proof (rule ac_scale_le)
  fix a assume "a \<in> set (ac_terms w h channel n)"
  then obtain cx cy where "a = dct w h channel cx cy" by (auto simp: ac_terms_def)
  then show "\<bar>a\<bar> \<le> m" using dct_bound [OF assms(1-3)] by simp
qed (rule assms(4))

lemma normalize_ac_bounds:
  assumes "a \<in> set (normalize_ac (ac_scale acs) acs)"
  shows "0 \<le> a" "a \<le> 1"
proof -
  have "0 \<le> a \<and> a \<le> 1"
  proof (cases "0 < ac_scale acs")
    case True
    then obtain b where b: "b \<in> set acs" and a: "a = 0.5 + 0.5 * b / ac_scale acs"
      using assms by (auto simp: normalize_ac_def)
    have "\<bar>b\<bar> \<le> ac_scale acs" using b by (rule ac_scale_ge)
    then have "- 1 \<le> b / ac_scale acs" "b / ac_scale acs \<le> 1"
      using True by (simp_all add: pos_le_divide_eq pos_divide_le_eq abs_le_iff)
    then show ?thesis by (simp add: a)
  next
    case False
    then have z: "ac_scale acs = 0" using ac_scale_nonneg [of acs] by linarith
    then have "a \<in> set acs" using assms by (simp add: normalize_ac_def)
    then have "\<bar>a\<bar> \<le> 0" using ac_scale_ge [of a acs] z by simp
    then show ?thesis by simp
  qed
  then show "0 \<le> a" "a \<le> 1" by simp_all
qed

section \<open>Quantisation and the header words\<close>

lemma round_half_bounds:
  assumes "0 \<le> x" "x \<le> real_of_int n"
  shows "0 \<le> round_half x" "round_half x \<le> n"
proof -
  show "0 \<le> round_half x" using assms(1) by (simp add: round_half_def)
  have "x + 1 / 2 < real_of_int (n + 1)" using assms(2) by simp
  then have "\<lfloor>x + 1 / 2\<rfloor> < n + 1" by (simp only: floor_less_iff)
  then show "round_half x \<le> n" by (simp add: round_half_def)
qed

lemma toInt32_nround:
  assumes "0 \<le> round_half x" "round_half x < 2 ^ 31"
  shows "toInt32 (nround (Num x)) = round_half x"
proof -
  have "wrap32 (round_half x) = round_half x"
    using assms by (intro wrap32_id) simp_all
  then show ?thesis using assms(1) by (simp add: round_half_def)
qed

lemma q63: "0 \<le> x \<Longrightarrow> x \<le> 1 \<Longrightarrow> 0 \<le> round_half (63 * x) \<and> round_half (63 * x) \<le> 63"
  using round_half_bounds [of "63 * x" 63] by simp

lemma q31: "0 \<le> x \<Longrightarrow> x \<le> 1 \<Longrightarrow> 0 \<le> round_half (31 * x) \<and> round_half (31 * x) \<le> 31"
  using round_half_bounds [of "31 * x" 31] by simp

lemma q15: "0 \<le> x \<Longrightarrow> x \<le> 1 \<Longrightarrow> 0 \<le> round_half (15 * x) \<and> round_half (15 * x) \<le> 15"
  using round_half_bounds [of "15 * x" 15] by simp

lemma q63s: "\<bar>x\<bar> \<le> 1 \<Longrightarrow> 0 \<le> round_half (31.5 + 31.5 * x) \<and> round_half (31.5 + 31.5 * x) \<le> 63"
  using round_half_bounds [of "31.5 + 31.5 * x" 63] by (simp add: abs_le_iff)

lemma header24_of_eq:
  assumes "0 \<le> l_dc" "l_dc \<le> 1" "\<bar>p_dc\<bar> \<le> 1" "\<bar>q_dc\<bar> \<le> 1" "0 \<le> l_scale" "l_scale \<le> 1"
  shows "header24_of (Num l_dc) (Num p_dc) (Num q_dc) (Num l_scale) = pack24 l_dc p_dc q_dc l_scale"
proof -
  define a where "a = round_half (63 * l_dc)"
  define b where "b = round_half (31.5 + 31.5 * p_dc)"
  define c where "c = round_half (31.5 + 31.5 * q_dc)"
  define d where "d = round_half (31 * l_scale)"
  have ra: "0 \<le> a" "a < 2 ^ 6" using q63 [OF assms(1,2)] by (simp_all add: a_def)
  have rb: "0 \<le> b" "b < 2 ^ 6" using q63s [OF assms(3)] by (simp_all add: b_def)
  have rc: "0 \<le> c" "c < 2 ^ 6" using q63s [OF assms(4)] by (simp_all add: c_def)
  have rd: "0 \<le> d" "d < 2 ^ 5" using q31 [OF assms(5,6)] by (simp_all add: d_def)
  have ta: "toInt32 (nround (nmul (Num 63) (Num l_dc))) = a"
    using ra by (simp only: nops a_def) (intro toInt32_nround, simp_all)
  have tb: "toInt32 (nround (nadd (Num 31.5) (nmul (Num 31.5) (Num p_dc)))) = b"
    using rb by (simp only: nops b_def) (intro toInt32_nround, simp_all)
  have tc: "toInt32 (nround (nadd (Num 31.5) (nmul (Num 31.5) (Num q_dc)))) = c"
    using rc by (simp only: nops c_def) (intro toInt32_nround, simp_all)
  have td: "toInt32 (nround (nmul (Num 31) (Num l_scale))) = d"
    using rd by (simp only: nops d_def) (intro toInt32_nround, simp_all)
  have sb: "shl32 b 6 = b * 2 ^ 6" using rb by (intro shl32_small [where m = 6]) simp_all
  have sc: "shl32 c 12 = c * 2 ^ 12" using rc by (intro shl32_small [where m = 6]) simp_all
  have sd: "shl32 d 18 = d * 2 ^ 18" using rd by (intro shl32_small [where m = 5]) simp_all
  have o1: "a OR b * 2 ^ 6 = a + b * 2 ^ 6" using ra by (intro or_shifted)
  have "0 \<le> a + b * 2 ^ 6" "a + b * 2 ^ 6 < 2 ^ 12" using ra rb by simp_all
  then have o2: "(a + b * 2 ^ 6) OR c * 2 ^ 12 = a + b * 2 ^ 6 + c * 2 ^ 12" by (intro or_shifted)
  have "0 \<le> a + b * 2 ^ 6 + c * 2 ^ 12" "a + b * 2 ^ 6 + c * 2 ^ 12 < 2 ^ 18" using ra rb rc by simp_all
  then have o3: "(a + b * 2 ^ 6 + c * 2 ^ 12) OR d * 2 ^ 18 = a + b * 2 ^ 6 + c * 2 ^ 12 + d * 2 ^ 18"
    by (intro or_shifted)
  show ?thesis
    unfolding header24_of_def ta tb tc td sb sc sd o1 o2 o3 pack24_def
    by (simp add: a_def b_def c_def d_def)
qed

lemma header16_of_eq:
  assumes "0 \<le> p_scale" "p_scale \<le> 1" "0 \<le> q_scale" "q_scale \<le> 1"
  shows "header16_of (Num p_scale) (Num q_scale) = pack16 p_scale q_scale"
proof -
  define a where "a = round_half (63 * p_scale)"
  define b where "b = round_half (63 * q_scale)"
  have ra: "0 \<le> a" "a < 2 ^ 6" using q63 [OF assms(1,2)] by (simp_all add: a_def)
  have rb: "0 \<le> b" "b < 2 ^ 6" using q63 [OF assms(3,4)] by (simp_all add: b_def)
  have ta: "toInt32 (nround (nmul (Num 63) (Num p_scale))) = a"
    using ra by (simp only: nops a_def) (intro toInt32_nround, simp_all)
  have tb: "toInt32 (nround (nmul (Num 63) (Num q_scale))) = b"
    using rb by (simp only: nops b_def) (intro toInt32_nround, simp_all)
  have sa: "shl32 a 3 = a * 2 ^ 3" using ra by (intro shl32_small [where m = 6]) simp_all
  have sb: "shl32 b 9 = b * 2 ^ 9" using rb by (intro shl32_small [where m = 6]) simp_all
  have "0 \<le> a * 2 ^ 3" "a * 2 ^ 3 < 2 ^ 9" using ra by simp_all
  then have o1: "a * 2 ^ 3 OR b * 2 ^ 9 = a * 2 ^ 3 + b * 2 ^ 9" by (intro or_shifted)
  show ?thesis
    unfolding header16_of_def ta tb sa sb o1 pack16_def
    by (simp add: a_def b_def)
qed

lemma pack24_bounds:
  assumes "0 \<le> l_dc" "l_dc \<le> 1" "\<bar>p_dc\<bar> \<le> 1" "\<bar>q_dc\<bar> \<le> 1" "0 \<le> l_scale" "l_scale \<le> 1"
  shows "0 \<le> pack24 l_dc p_dc q_dc l_scale" "pack24 l_dc p_dc q_dc l_scale < 2 ^ 23"
  using q63 [OF assms(1,2)] q63s [OF assms(3)] q63s [OF assms(4)] q31 [OF assms(5,6)]
  by (simp_all add: pack24_def)

lemma header_array_eq:
  "[w24 AND 255, sar32 w24 8 AND 255, sar32 w24 16, w16 AND 255, sar32 w16 8] = header_bytes w24 w16"
  by (simp add: header_bytes_def and_low_bits sar32_div)

lemma pack_nibbles_append:
  "even (length xs) \<Longrightarrow> pack_nibbles (xs @ ys) = pack_nibbles xs @ pack_nibbles ys"
  by (induction xs rule: pack_nibbles.induct) simp_all

lemma length_pack_nibbles: "length (pack_nibbles xs) = (length xs + 1) div 2"
  by (induction xs rule: pack_nibbles.induct) simp_all

section \<open>Writing the nibbles\<close>

lemma quant15_unit: "0 \<le> f \<Longrightarrow> f \<le> 1 \<Longrightarrow> quant15 f = round_half (15 * f)"
  using q15 [of f] by (simp add: quant15_def)

lemma quant15_bounds: "0 \<le> quant15 f" "quant15 f \<le> 15"
  by (simp_all add: quant15_def)

lemma write_ac_Num:
  assumes "0 \<le> f" "f \<le> 1"
  shows "write_ac (Num f) (hash, k) =
     (array_set hash (ac_start + k div 2)
        (nth_int32 hash (ac_start + k div 2) OR quant15 f * (if even k then 1 else 16)), Suc k)"
proof -
  note q = q15 [OF assms(1,2)]
  have t: "toInt32 (nround (nmul (Num 15) (Num f))) = quant15 f"
    using q unfolding quant15_unit [OF assms] by (simp only: nops) (intro toInt32_nround, simp_all)
  have s: "shl32 (quant15 f) (push_bit 2 (k AND 1)) = quant15 f * (if even k then 1 else 16)"
  proof (cases "even k")
    case True
    then have "push_bit 2 (k AND 1) = 0" by (simp add: and_one_eq)
    moreover have "shl32 (quant15 f) 0 = quant15 f * 2 ^ 0"
      using quant15_bounds [of f] by (intro shl32_small [where m = 4]) simp_all
    ultimately show ?thesis using True by simp
  next
    case False
    then have "push_bit 2 (k AND 1) = 4" by (simp add: and_one_eq mod_2_eq_odd)
    moreover have "shl32 (quant15 f) 4 = quant15 f * 2 ^ 4"
      using quant15_bounds [of f] by (intro shl32_small [where m = 4]) simp_all
    ultimately show ?thesis using False by simp
  qed
  have d: "drop_bit 1 k = k div 2" by (simp add: drop_bit_eq_div)
  show ?thesis
    by (simp only: write_ac_def Let_def prod.case t s d)
qed

lemma array_set_end: "array_set xs (length xs) v = xs @ [v]"
  by (simp add: array_set_def)

lemma array_set_last: "array_set (xs @ [a]) (length xs) v = xs @ [v]"
  by (simp add: array_set_def)

lemma nth_int32_end: "nth_int32 xs (length xs) = 0"
  by (simp add: nth_int32_def)

lemma nth_int32_last: "nth_int32 (xs @ [a]) (length xs) = a"
  by (simp add: nth_int32_def)

lemma write_ac_even:
  assumes "0 \<le> f" "f \<le> 1" "even (length ns)" "length hdr = ac_start"
  shows "write_ac (Num f) (hdr @ pack_nibbles ns, length ns) =
     (hdr @ pack_nibbles (ns @ [quant15 f]), Suc (length ns))"
proof -
  have idx: "ac_start + length ns div 2 = length (hdr @ pack_nibbles ns)"
    using assms(3,4) by (simp add: length_pack_nibbles)
  have p: "pack_nibbles (ns @ [quant15 f]) = pack_nibbles ns @ [quant15 f]"
    using assms(3) by (simp add: pack_nibbles_append)
  show ?thesis
    unfolding write_ac_Num [OF assms(1,2)] idx array_set_end nth_int32_end p
    using assms(3) by simp
qed

lemma write_ac_odd:
  assumes "0 \<le> f" "f \<le> 1" "even (length ns)" "length hdr = ac_start" "0 \<le> lo" "lo < 16"
  shows "write_ac (Num f) (hdr @ pack_nibbles (ns @ [lo]), Suc (length ns)) =
     (hdr @ pack_nibbles (ns @ [lo, quant15 f]), Suc (Suc (length ns)))"
proof -
  have p1: "hdr @ pack_nibbles (ns @ [lo]) = (hdr @ pack_nibbles ns) @ [lo]"
    using assms(3) by (simp add: pack_nibbles_append)
  have p2: "hdr @ pack_nibbles (ns @ [lo, quant15 f]) = (hdr @ pack_nibbles ns) @ [lo + 16 * quant15 f]"
    using assms(3) by (simp add: pack_nibbles_append)
  have idx: "ac_start + Suc (length ns) div 2 = length (hdr @ pack_nibbles ns)"
    using assms(3,4) by (simp add: length_pack_nibbles)
  have o: "lo OR quant15 f * 2 ^ 4 = lo + quant15 f * 2 ^ 4"
    using assms(5,6) by (intro or_shifted) simp_all
  have odd: "(if even (Suc (length ns)) then 1 else 16) = (2::int) ^ 4"
    using assms(3) by simp
  show ?thesis
    unfolding write_ac_Num [OF assms(1,2)] p1 p2 idx array_set_last nth_int32_last odd o
    by simp
qed

lemma write_ac_fold:
  assumes "\<And>f. f \<in> set fs \<Longrightarrow> 0 \<le> f \<and> f \<le> 1" "even (length ns)" "length hdr = ac_start"
  shows "fst (fold write_ac (map Num fs) (hdr @ pack_nibbles ns, length ns)) =
     hdr @ pack_nibbles (ns @ map quant15 fs)"
  using assms
proof (induction fs arbitrary: ns rule: induct_list012)
  case 1
  then show ?case by simp
next
  case (2 f)
  then show ?case using write_ac_even [of f ns hdr] by simp
next
  case (3 f g fs)
  have f: "0 \<le> f" "f \<le> 1" and g: "0 \<le> g" "g \<le> 1" using 3(3) by simp_all
  have e: "even (length (ns @ [quant15 f, quant15 g]))" using 3(4) by simp
  have "fold write_ac (map Num (f # g # fs)) (hdr @ pack_nibbles ns, length ns) =
      fold write_ac (map Num fs)
        (hdr @ pack_nibbles (ns @ [quant15 f, quant15 g]), length (ns @ [quant15 f, quant15 g]))"
    using write_ac_even [OF f 3(4,5)]
      write_ac_odd [OF g 3(4,5) quant15_bounds(1) [of f]] quant15_bounds(2) [of f]
    by simp
  moreover have "fst (fold write_ac (map Num fs)
        (hdr @ pack_nibbles (ns @ [quant15 f, quant15 g]), length (ns @ [quant15 f, quant15 g]))) =
      hdr @ pack_nibbles ((ns @ [quant15 f, quant15 g]) @ map quant15 fs)"
    using 3(3) by (intro 3(1) e 3(5)) simp
  ultimately show ?case by simp
qed

section \<open>The hash as the specification lays it out\<close>

lemma channel_lengths:
  "length (l_channel w h rgba) = w * h" "length (p_channel w h rgba) = w * h"
  "length (q_channel w h rgba) = w * h"
  by (simp_all add: l_channel_def p_channel_def q_channel_def)

lemma channel_bounds:
  assumes "0 < w * h" "i < w * h"
  shows "0 \<le> l_channel w h rgba ! i" "\<bar>l_channel w h rgba ! i\<bar> \<le> 1"
    "\<bar>p_channel w h rgba ! i\<bar> \<le> 1" "\<bar>q_channel w h rgba ! i\<bar> \<le> 1"
  using assms(2) lpq_bounds [OF assms(1), of rgba i]
  by (simp_all add: l_channel_def p_channel_def q_channel_def)

lemma toLPQ_channels:
  assumes "valid_input w h rgba"
  shows "toLPQ w h rgba =
    (map Num (l_channel w h rgba), map Num (p_channel w h rgba), map Num (q_channel w h rgba))"
  by (simp add: toLPQ_Num [OF assms] l_channel_def p_channel_def q_channel_def comp_def)

lemma encodeChannel_of:
  assumes "length channel = w * h" "0 < w" "0 < h" "0 < n"
  shows "encodeChannel w h (map Num channel) n =
     (Num (dc_of w h channel), map Num (ac_of w h channel n), Num (scale_of w h channel n))"
  by (simp only: encodeChannel_Num [OF assms] dc_of_def ac_of_def scale_of_def)

lemma scale_of_bounds:
  assumes "0 < w" "0 < h" "\<And>i. i < w * h \<Longrightarrow> \<bar>channel ! i\<bar> \<le> 1"
  shows "0 \<le> scale_of w h channel n" "scale_of w h channel n \<le> 1"
  using ac_scale_nonneg ac_scale_bound [OF assms(1,2,3), of n]
  by (simp_all add: scale_of_def)

lemma ac_of_bounds:
  assumes "a \<in> set (ac_of w h channel n)"
  shows "0 \<le> a \<and> a \<le> 1"
  using assms normalize_ac_bounds [of a "ac_terms w h channel n"]
  by (simp add: ac_of_def scale_of_def)

lemma hash_array_packed:
  assumes "valid_input w h rgba" "valid_config cfg"
  shows "hash_array cfg w h rgba = packed_hash cfg w h rgba"
proof -
  define l p q where "l = l_channel w h rgba" and "p = p_channel w h rgba" and "q = q_channel w h rgba"
  define nl nc where "nl = LUMINANCE_TERMS cfg" and "nc = CHROMINANCE_TERMS cfg"
  have w: "0 < w" and h: "0 < h" and wh: "0 < w * h"
    using assms(1) by (simp_all add: valid_input_def)
  have n: "0 < nl" "0 < nc" using assms(2) by (simp_all add: valid_config_def nl_def nc_def)
  have len: "length l = w * h" "length p = w * h" "length q = w * h"
    by (simp_all add: l_def p_def q_def channel_lengths)
  have bl: "\<bar>l ! i\<bar> \<le> 1" and bl0: "0 \<le> l ! i" and bp: "\<bar>p ! i\<bar> \<le> 1" and bq: "\<bar>q ! i\<bar> \<le> 1"
    if "i < w * h" for i
    using channel_bounds [OF wh that, of rgba] by (simp_all add: l_def p_def q_def)
  have el: "encodeChannel w h (map Num l) nl = (Num (dc_of w h l), map Num (ac_of w h l nl), Num (scale_of w h l nl))"
    by (rule encodeChannel_of [OF len(1) w h n(1)])
  have ep: "encodeChannel w h (map Num p) nc = (Num (dc_of w h p), map Num (ac_of w h p nc), Num (scale_of w h p nc))"
    by (rule encodeChannel_of [OF len(2) w h n(2)])
  have eq: "encodeChannel w h (map Num q) nc = (Num (dc_of w h q), map Num (ac_of w h q nc), Num (scale_of w h q nc))"
    by (rule encodeChannel_of [OF len(3) w h n(2)])
  have dl: "0 \<le> dc_of w h l" "dc_of w h l \<le> 1"
    using dct_dc_nonneg [of w h l] dct_bound [OF w h, of l 1 0 0] bl bl0
    by (simp_all add: dc_of_def abs_le_iff)
  have dp: "\<bar>dc_of w h p\<bar> \<le> 1" using dct_bound [OF w h, of p 1 0 0] bp by (simp add: dc_of_def)
  have dq: "\<bar>dc_of w h q\<bar> \<le> 1" using dct_bound [OF w h, of q 1 0 0] bq by (simp add: dc_of_def)
  note sl = scale_of_bounds [OF w h bl, of nl]
  note sp = scale_of_bounds [OF w h bp, of nc]
  note sq = scale_of_bounds [OF w h bq, of nc]
  have h24: "header24_of (Num (dc_of w h l)) (Num (dc_of w h p)) (Num (dc_of w h q)) (Num (scale_of w h l nl)) =
      pack24 (dc_of w h l) (dc_of w h p) (dc_of w h q) (scale_of w h l nl)"
    by (rule header24_of_eq [OF dl dp dq sl])
  have h16: "header16_of (Num (scale_of w h p nc)) (Num (scale_of w h q nc)) =
      pack16 (scale_of w h p nc) (scale_of w h q nc)"
    by (rule header16_of_eq [OF sp sq])
  define w24 w16 where "w24 = pack24 (dc_of w h l) (dc_of w h p) (dc_of w h q) (scale_of w h l nl)"
    and "w16 = pack16 (scale_of w h p nc) (scale_of w h q nc)"
  have fs: "0 \<le> f \<and> f \<le> 1" if "f \<in> set (ac_of w h l nl @ ac_of w h p nc @ ac_of w h q nc)" for f
    using that ac_of_bounds by auto
  have "fst (fold write_ac (map Num (ac_of w h l nl @ ac_of w h p nc @ ac_of w h q nc))
          (header_bytes w24 w16 @ pack_nibbles [], length ([]::int list))) =
        header_bytes w24 w16 @ pack_nibbles ([] @ map quant15 (ac_of w h l nl @ ac_of w h p nc @ ac_of w h q nc))"
    by (rule write_ac_fold [OF fs]) (simp_all add: header_bytes_def ac_start_def)
  then have fold: "fst (fold write_ac (map Num (ac_of w h l nl @ ac_of w h p nc @ ac_of w h q nc))
          (header_bytes w24 w16, 0)) =
        header_bytes w24 w16 @ pack_nibbles (map quant15 (ac_of w h l nl @ ac_of w h p nc @ ac_of w h q nc))"
    by simp
  have "hash_array cfg w h rgba =
      fst (fold write_ac (concat [map Num (ac_of w h l nl), map Num (ac_of w h p nc), map Num (ac_of w h q nc)])
          ([w24 AND 255, sar32 w24 8 AND 255, sar32 w24 16, w16 AND 255, sar32 w16 8], 0))"
    by (simp only: hash_array_def toLPQ_channels [OF assms(1)] prod.case l_def [symmetric]
        p_def [symmetric] q_def [symmetric] nl_def [symmetric] nc_def [symmetric] el ep eq
        Let_def h24 h16 w24_def [symmetric] w16_def [symmetric])
  also have "\<dots> = header_bytes w24 w16 @
      pack_nibbles (map quant15 (ac_of w h l nl @ ac_of w h p nc @ ac_of w h q nc))"
    unfolding header_array_eq using fold by simp
  finally show ?thesis
    by (simp add: packed_hash_def Let_def l_def p_def q_def nl_def nc_def w24_def w16_def)
qed

section \<open>What the decoder recovers\<close>

lemma decode_acs_eq:
  "decode_acs cfg hash =
     (map (\<lambda>j. dequantize hash (l_scale_of hash) j) [0..<length (ac_indices (LUMINANCE_TERMS cfg))],
      map (\<lambda>j. dequantize hash (p_scale_of hash * 1.25) (length (ac_indices (LUMINANCE_TERMS cfg)) + j))
        [0..<length (ac_indices (CHROMINANCE_TERMS cfg))],
      map (\<lambda>j. dequantize hash (q_scale_of hash * 1.25)
            (length (ac_indices (LUMINANCE_TERMS cfg)) + length (ac_indices (CHROMINANCE_TERMS cfg)) + j))
        [0..<length (ac_indices (CHROMINANCE_TERMS cfg))])"
  by (simp add: decode_acs_def Let_def read_constants_eq decodeChannel_eq l_scale_of_def
      p_scale_of_def q_scale_of_def)

text \<open>
  C4. For every byte sequence and term counts, \<^verbatim>\<open>thumbHashToRGBA\<close> recovers the
  header fields with the inverse arithmetic of the encoder
  (\<open>l_dc = (header24 & 63) / 63\<close>, \<open>p_dc = ((header24 >> 6) & 63) / 31.5 - 1\<close>,
  \<open>q_dc = ((header24 >> 12) & 63) / 31.5 - 1\<close>, \<open>l_scale = ((header24 >> 18) & 31) / 31\<close>,
  \<open>p_scale = ((header16 >> 3) & 63) / 63\<close>, \<open>q_scale = ((header16 >> 9) & 63) / 63\<close>)
  and each AC term as \<open>(nibble / 7.5 - 1) * scale\<close>, taking the nibbles low nibble first,
  for L, then P, then Q, in the enumeration order of the encoder (the decoder's loops run
  through \<open>ac_indices n\<close>, the list along which the encoder collects its AC terms);
  the scale is \<open>l_scale\<close> for L, and \<open>p_scale * 1.25\<close> and \<open>q_scale * 1.25\<close> for P
  and Q.
\<close>

theorem decode_unpacks:
  "read_constants hash =
     \<lparr>hdr_l_dc = Num (real_of_int (header24_value hash mod 64) / 63),
      hdr_p_dc = Num (real_of_int (header24_value hash div 2 ^ 6 mod 64) / 31.5 - 1),
      hdr_q_dc = Num (real_of_int (header24_value hash div 2 ^ 12 mod 64) / 31.5 - 1),
      hdr_l_scale = Num (l_scale_of hash),
      hdr_p_scale = Num (p_scale_of hash),
      hdr_q_scale = Num (q_scale_of hash)\<rparr> \<and>
   decode_acs cfg hash =
     (map (\<lambda>j. dequantize hash (l_scale_of hash) j) [0..<length (ac_indices (LUMINANCE_TERMS cfg))],
      map (\<lambda>j. dequantize hash (p_scale_of hash * 1.25) (length (ac_indices (LUMINANCE_TERMS cfg)) + j))
        [0..<length (ac_indices (CHROMINANCE_TERMS cfg))],
      map (\<lambda>j. dequantize hash (q_scale_of hash * 1.25)
            (length (ac_indices (LUMINANCE_TERMS cfg)) + length (ac_indices (CHROMINANCE_TERMS cfg)) + j))
        [0..<length (ac_indices (CHROMINANCE_TERMS cfg))]) \<and>
   fold (\<lambda>cy s. tri_loop n cy (body cy) (if cy \<noteq> 0 then 0 else 1) s) [0..<n] s =
     fold (\<lambda>(cx, cy). body cy cx) (ac_indices n) s \<and>
   fst (snd (encodeChannel w h channel n)) =
     (let ac = map (\<lambda>(cx, cy). dct_term w h channel cx cy) (ac_indices n);
          scale = snd (snd (encodeChannel w h channel n))
      in if truthy scale then map (\<lambda>a. nadd (Num 0.5) (nmul (ndiv (Num 0.5) scale) a)) ac else ac)"
proof (intro conjI)
  show "read_constants hash =
     \<lparr>hdr_l_dc = Num (real_of_int (header24_value hash mod 64) / 63),
      hdr_p_dc = Num (real_of_int (header24_value hash div 2 ^ 6 mod 64) / 31.5 - 1),
      hdr_q_dc = Num (real_of_int (header24_value hash div 2 ^ 12 mod 64) / 31.5 - 1),
      hdr_l_scale = Num (l_scale_of hash),
      hdr_p_scale = Num (p_scale_of hash),
      hdr_q_scale = Num (q_scale_of hash)\<rparr>"
    by (simp add: read_constants_eq l_scale_of_def p_scale_of_def q_scale_of_def)
  show "fold (\<lambda>cy s. tri_loop n cy (body cy) (if cy \<noteq> 0 then 0 else 1) s) [0..<n] s =
     fold (\<lambda>(cx, cy). body cy cx) (ac_indices n) s"
    by (rule ac_loops_fold)
  show "fst (snd (encodeChannel w h channel n)) =
     (let ac = map (\<lambda>(cx, cy). dct_term w h channel cx cy) (ac_indices n);
          scale = snd (snd (encodeChannel w h channel n))
      in if truthy scale then map (\<lambda>a. nadd (Num 0.5) (nmul (ndiv (Num 0.5) scale) a)) ac else ac)"
    by (simp add: encodeChannel_eq Let_def ac_raw_def)
qed (rule decode_acs_eq)

section \<open>The alpha bit of the average colour\<close>

lemma header24_value_bounds: "0 \<le> header24_value hash" "header24_value hash < 2 ^ 24"
  using hash_int_bounds [of hash 0] hash_int_bounds [of hash 1] hash_int_bounds [of hash 2]
  by (simp_all add: header24_value_def)

lemma hasAlpha_eq: "sar32 (header24_read hash) 23 = of_bool (bit (header24_value hash) 23)"
proof -
  have "header24_value hash div 2 ^ 23 = 0 \<or> header24_value hash div 2 ^ 23 = 1"
    using header24_value_bounds [of hash] by (simp add: div_eq_0_iff) linarith?
  then show ?thesis
    by (auto simp add: header24_read_eq sar32_div bit_iff_odd)
qed

lemma average_alpha:
  "col_a (thumbHashToAverageRGBA hash) =
     (if bit (header24_value hash) 23 then Num (real_of_int (hash_int hash 5 mod 16) / 15) else Num 1)"
  by (simp add: thumbHashToAverageRGBA_def Let_def hasAlpha_eq and_low_bits num_of_int_def)

lemma encoded_ranges:
  assumes "valid_input w h rgba"
  shows "0 \<le> dc_of w h (l_channel w h rgba)" "dc_of w h (l_channel w h rgba) \<le> 1"
    "\<bar>dc_of w h (p_channel w h rgba)\<bar> \<le> 1" "\<bar>dc_of w h (q_channel w h rgba)\<bar> \<le> 1"
    "0 \<le> scale_of w h (l_channel w h rgba) n" "scale_of w h (l_channel w h rgba) n \<le> 1"
    "0 \<le> scale_of w h (p_channel w h rgba) n" "scale_of w h (p_channel w h rgba) n \<le> 1"
    "0 \<le> scale_of w h (q_channel w h rgba) n" "scale_of w h (q_channel w h rgba) n \<le> 1"
proof -
  have w: "0 < w" and h: "0 < h" and wh: "0 < w * h"
    using assms(1) by (simp_all add: valid_input_def)
  note b = channel_bounds [OF wh, of _ rgba]
  show "0 \<le> dc_of w h (l_channel w h rgba)"
    unfolding dc_of_def by (rule dct_dc_nonneg) (rule b(1))
  have "\<bar>dc_of w h (l_channel w h rgba)\<bar> \<le> 1"
    unfolding dc_of_def by (rule dct_bound [OF w h]) (rule b(2))
  then show "dc_of w h (l_channel w h rgba) \<le> 1" by simp
  show "\<bar>dc_of w h (p_channel w h rgba)\<bar> \<le> 1"
    unfolding dc_of_def by (rule dct_bound [OF w h]) (rule b(3))
  show "\<bar>dc_of w h (q_channel w h rgba)\<bar> \<le> 1"
    unfolding dc_of_def by (rule dct_bound [OF w h]) (rule b(4))
  show "0 \<le> scale_of w h (l_channel w h rgba) n" "scale_of w h (l_channel w h rgba) n \<le> 1"
    by (rule scale_of_bounds [OF w h b(2)], assumption)+
  show "0 \<le> scale_of w h (p_channel w h rgba) n" "scale_of w h (p_channel w h rgba) n \<le> 1"
    by (rule scale_of_bounds [OF w h b(3)], assumption)+
  show "0 \<le> scale_of w h (q_channel w h rgba) n" "scale_of w h (q_channel w h rgba) n \<le> 1"
    by (rule scale_of_bounds [OF w h b(4)], assumption)+
qed

lemma header24_value_packed:
  assumes "valid_input w h rgba"
  shows "header24_value (map word_of_int (packed_hash cfg w h rgba)) =
     pack24 (dc_of w h (l_channel w h rgba)) (dc_of w h (p_channel w h rgba))
       (dc_of w h (q_channel w h rgba)) (scale_of w h (l_channel w h rgba) (LUMINANCE_TERMS cfg))"
proof -
  note r = encoded_ranges [OF assms(1)]
  note p24 = pack24_bounds [OF r(1,2,3,4) r(5,6) [of "LUMINANCE_TERMS cfg"]]
  define w24 where "w24 = pack24 (dc_of w h (l_channel w h rgba)) (dc_of w h (p_channel w h rgba))
       (dc_of w h (q_channel w h rgba)) (scale_of w h (l_channel w h rgba) (LUMINANCE_TERMS cfg))"
  obtain w16 rest where ph: "packed_hash cfg w h rgba = header_bytes w24 w16 @ rest"
    by (simp add: packed_hash_def Let_def w24_def)
  have "w24 div 65536 < 256" "0 \<le> w24 div 65536" using p24 by (simp_all add: w24_def)
  then have d: "w24 div 65536 mod 256 = w24 div 65536" by simp
  have "header24_value (map word_of_int (header_bytes w24 w16 @ rest)) =
      w24 mod 256 + 256 * (w24 div 256 mod 256) + 65536 * (w24 div 65536)"
    by (simp add: header24_value_def hash_int_def header_bytes_def uint_word_of_int take_bit_eq_mod d)
  also have "\<dots> = w24"
  proof -
    have "w24 div 65536 = w24 div 256 div 256" by (simp add: div_mult2_eq [symmetric])
    then show ?thesis using div_mult_mod_eq [of w24 256] div_mult_mod_eq [of "w24 div 256" 256] by linarith
  qed
  finally show ?thesis by (simp add: ph w24_def)
qed

lemma encoded_no_alpha:
  assumes "valid_input w h rgba" "valid_config cfg"
  shows "\<exists>hash. rgbaToThumbHash cfg w h rgba = Inr hash \<and> \<not> bit (header24_value hash) 23 \<and>
           col_a (thumbHashToAverageRGBA hash) = Num 1"
proof -
  note r = encoded_ranges [OF assms(1)]
  note p24 = pack24_bounds [OF r(1,2,3,4) r(5,6) [of "LUMINANCE_TERMS cfg"]]
  define hash :: "byte list" where "hash = map word_of_int (packed_hash cfg w h rgba)"
  have e: "rgbaToThumbHash cfg w h rgba = Inr hash"
    using assms by (simp add: rgbaToThumbHash_def hash_array_packed hash_def valid_input_def)
  have "header24_value hash div 2 ^ 23 = 0"
    unfolding hash_def header24_value_packed [OF assms(1)] using p24 by simp
  then have nb: "\<not> bit (header24_value hash) 23" by (simp add: bit_iff_odd)
  then have "col_a (thumbHashToAverageRGBA hash) = Num 1" by (simp add: average_alpha)
  with e nb show ?thesis by blast
qed



section \<open>The checksum table computes CRC-32\<close>

lemma crc_bit_xor: "crc_bit (a XOR b) = crc_bit a XOR crc_bit b"
  by (cases "odd a"; cases "odd b") (simp_all add: crc_bit_def even_xor_iff ac_simps)

lemma crc_bit_funpow_xor: "(crc_bit ^^ n) (a XOR b) = (crc_bit ^^ n) a XOR (crc_bit ^^ n) b"
  by (induction n arbitrary: a b) (simp_all add: crc_bit_xor funpow_swap1)

lemma crc_bit_double: "crc_bit (2 * x) = x"
  by (simp add: crc_bit_def drop_bit_eq_div)

lemma crc_bit_funpow_push: "(crc_bit ^^ n) (push_bit n v) = v"
proof (induction n)
  case 0
  then show ?case by simp
next
  case (Suc n)
  have "push_bit (Suc n) v = 2 * push_bit n v" by (simp add: push_bit_eq_mult)
  then have "(crc_bit ^^ Suc n) (push_bit (Suc n) v) = (crc_bit ^^ n) (crc_bit (2 * push_bit n v))"
    by (simp only: funpow_Suc_right o_apply)
  then show ?case by (simp only: crc_bit_double Suc)
qed

lemma split_nibble: "(u::int) = push_bit 4 (drop_bit 4 u) XOR take_bit 4 u"
  by (rule bit_eqI) (auto simp add: bit_simps)

lemma utable_values:
  "utable = [0, 0x1DB71064, 0x3B6E20C8, 0x26D930AC, 0x76DC4190, 0x6B6B51F4, 0x4DB26158, 0x5005713C,
     0xEDB88320, 0xF00F9344, 0xD6D6A3E8, 0xCB61B38C, 0x9B64C2B0, 0x86D3D2D4, 0xA00AE278, 0xBDBDF21C]"
  by (simp add: utable_def table_def take_bit_eq_mod)

lemma funpow4: "(f ^^ 4) x = f (f (f (f x)))"
  by (simp add: eval_nat_numeral)

lemma crc_bit_low:
  "(crc_bit ^^ 4) 0 = 0" "(crc_bit ^^ 4) 1 = 0x1DB71064" "(crc_bit ^^ 4) 2 = 0x3B6E20C8"
  "(crc_bit ^^ 4) 3 = 0x26D930AC" "(crc_bit ^^ 4) 4 = 0x76DC4190" "(crc_bit ^^ 4) 5 = 0x6B6B51F4"
  "(crc_bit ^^ 4) 6 = 0x4DB26158" "(crc_bit ^^ 4) 7 = 0x5005713C" "(crc_bit ^^ 4) 8 = 0xEDB88320"
  "(crc_bit ^^ 4) 9 = 0xF00F9344" "(crc_bit ^^ 4) 10 = 0xD6D6A3E8" "(crc_bit ^^ 4) 11 = 0xCB61B38C"
  "(crc_bit ^^ 4) 12 = 0x9B64C2B0" "(crc_bit ^^ 4) 13 = 0x86D3D2D4" "(crc_bit ^^ 4) 14 = 0xA00AE278"
  "(crc_bit ^^ 4) 15 = 0xBDBDF21C"
  by (simp_all add: funpow4 crc_bit_def drop_bit_eq_div)

lemma take_bit_4_cases:
  "take_bit 4 (u::int) \<in> {0, 1, 2, 3, 4, 5, 6, 7, 8, 9, 10, 11, 12, 13, 14, 15}"
proof -
  have "0 \<le> take_bit 4 u" "take_bit 4 u < 16"
    using take_bit_int_less_exp [of 4 u] by simp_all
  then show ?thesis by (simp only: insert_iff empty_iff) presburger
qed

lemma crc_nibble: "(crc_bit ^^ 4) u = drop_bit 4 u XOR utable ! nat (take_bit 4 u)"
proof -
  have "(crc_bit ^^ 4) u = (crc_bit ^^ 4) (push_bit 4 (drop_bit 4 u)) XOR (crc_bit ^^ 4) (take_bit 4 u)"
    by (subst split_nibble [of u]) (rule crc_bit_funpow_xor)
  also have "(crc_bit ^^ 4) (push_bit 4 (drop_bit 4 u)) = drop_bit 4 u"
    by (rule crc_bit_funpow_push)
  also have "(crc_bit ^^ 4) (take_bit 4 u) = utable ! nat (take_bit 4 u)"
    using take_bit_4_cases [of u] by (auto simp add: utable_values crc_bit_low)
  finally show ?thesis .
qed

lemma and_15: "(c::int) AND 15 = take_bit 4 c"
proof -
  have "c AND mask 4 = take_bit 4 c" by (simp only: take_bit_eq_mask)
  then show ?thesis by (simp add: mask_eq_exp_minus_1)
qed

lemma table_step:
  "take_bit 32 (shr32 c 4 XOR table ! nat (c AND 15)) = (crc_bit ^^ 4) (take_bit 32 c)"
proof -
  have k: "nat (take_bit 4 c) < 16"
    using take_bit_int_less_exp [of 4 c] by simp
  have "length table = 16" by (simp add: table_def)
  with k have t: "take_bit 32 (table ! nat (take_bit 4 c)) = utable ! nat (take_bit 4 c)"
    by (simp only: utable_def nth_map)
  have d: "take_bit 32 (drop_bit 4 (take_bit 32 c)) = drop_bit 4 (take_bit 32 c)"
    by (rule bit_eqI) (auto simp add: bit_simps)
  have l: "take_bit 4 (take_bit 32 c) = take_bit 4 c"
    by simp
  have "take_bit 32 (shr32 c 4 XOR table ! nat (c AND 15)) =
      drop_bit 4 (take_bit 32 c) XOR utable ! nat (take_bit 4 c)"
    unfolding and_15 take_bit_xor t shr32_def using d by simp
  then show ?thesis
    by (simp only: crc_nibble [of "take_bit 32 c"] l)
qed

lemma funpow8: "(f ^^ 8) x = (f ^^ 4) ((f ^^ 4) x)"
proof -
  have "(f ^^ (4 + 4)) x = (f ^^ 4) ((f ^^ 4) x)" by (simp only: funpow_add o_apply)
  then show ?thesis by simp
qed

lemma crc_step_spec:
  assumes "i < length bytes" "0 \<le> bytes ! i" "bytes ! i \<le> 255"
  shows "take_bit 32 (crc_step bytes i c) = crc_byte (take_bit 32 c) (word_of_int (bytes ! i))"
proof -
  have b: "take_bit 32 (bytes ! i) = bytes ! i"
    using assms(2,3) by (simp add: take_bit_int_eq_self)
  have u: "uint (word_of_int (bytes ! i) :: byte) = bytes ! i"
    using assms(2,3) by (simp add: uint_word_of_int take_bit_int_eq_self)
  have "take_bit 32 (crc_step bytes i c) =
      (crc_bit ^^ 4) ((crc_bit ^^ 4) (take_bit 32 (c XOR bytes ! i)))"
    using assms(1) by (simp only: crc_step_def Let_def table_step nth_int32_def if_True)
  also have "\<dots> = (crc_bit ^^ 8) (take_bit 32 c XOR bytes ! i)"
    by (simp only: funpow8 take_bit_xor b)
  finally show ?thesis by (simp add: crc_byte_def u)
qed

lemma crc_fold_spec:
  assumes "n \<le> length bs"
    and "\<And>j. j < n \<Longrightarrow> 0 \<le> bs ! j \<and> bs ! j \<le> 255"
  shows "take_bit 32 (fold (crc_step (pre @ bs @ post)) [length pre..<length pre + n] c) =
     fold (\<lambda>b c. crc_byte c b) (map word_of_int (take n bs)) (take_bit 32 c)"
  using assms
proof (induction n)
  case 0
  then show ?case by simp
next
  case (Suc n)
  have n: "n < length bs" using Suc.prems(1) by simp
  have nth: "(pre @ bs @ post) ! (length pre + n) = bs ! n"
    using n by (simp add: nth_append)
  have r: "0 \<le> bs ! n" "bs ! n \<le> 255" using Suc.prems(2) [of n] by simp_all
  have i: "length pre + n < length (pre @ bs @ post)" using n by simp
  have "take_bit 32 (crc_step (pre @ bs @ post) (length pre + n)
            (fold (crc_step (pre @ bs @ post)) [length pre..<length pre + n] c)) =
        crc_byte (take_bit 32 (fold (crc_step (pre @ bs @ post)) [length pre..<length pre + n] c))
          (word_of_int ((pre @ bs @ post) ! (length pre + n)))"
    by (rule crc_step_spec [OF i]) (simp_all only: nth r)
  then have "take_bit 32 (crc_step (pre @ bs @ post) (length pre + n)
            (fold (crc_step (pre @ bs @ post)) [length pre..<length pre + n] c)) =
        crc_byte (take_bit 32 (fold (crc_step (pre @ bs @ post)) [length pre..<length pre + n] c))
          (word_of_int (bs ! n))"
    by (simp only: nth)
  also have "take_bit 32 (fold (crc_step (pre @ bs @ post)) [length pre..<length pre + n] c) =
      fold (\<lambda>b c. crc_byte c b) (map word_of_int (take n bs)) (take_bit 32 c)"
    using Suc.prems by (intro Suc.IH) simp_all
  finally show ?case using n by (simp add: take_Suc_conv_app_nth)
qed

lemma take_bit_not32: "take_bit 32 (not32 c) = take_bit 32 c XOR 0xFFFFFFFF"
proof -
  have "take_bit 32 (NOT c) = take_bit 32 c XOR mask 32"
    by (rule bit_eqI) (auto simp add: bit_simps)
  then show ?thesis by (simp add: not32_def mask_eq_exp_minus_1)
qed

lemma crc_value:
  assumes "n \<le> length bs"
    and "\<And>j. j < n \<Longrightarrow> 0 \<le> bs ! j \<and> bs ! j \<le> 255"
  shows "take_bit 32 (not32 (fold (crc_step (pre @ bs @ post)) [length pre..<length pre + n] (not32 0))) =
     crc32 (map word_of_int (take n bs))"
proof -
  have "take_bit 32 (not32 0) = 0xFFFFFFFF" by (simp add: not32_def mask_eq_exp_minus_1)
  then show ?thesis
    by (simp only: take_bit_not32 crc_fold_spec [OF assms] crc32_def)
qed

text \<open>The four bytes written for a 32-bit value.\<close>

lemma and_255: "(c::int) AND 255 = take_bit 8 c"
proof -
  have "c AND mask 8 = take_bit 8 c" by (simp only: take_bit_eq_mask)
  then show ?thesis by (simp add: mask_eq_exp_minus_1)
qed

lemma byte_of_shifted:
  assumes "k + 8 \<le> 32"
  shows "(word_of_int (drop_bit k c) :: byte) = word_of_int (drop_bit k (take_bit 32 c))"
proof -
  have "take_bit 8 (drop_bit k c) = take_bit 8 (drop_bit k (take_bit 32 c))"
    using assms by (intro bit_eqI) (auto simp add: bit_simps)
  then show ?thesis by (simp add: word_of_int_eq_iff)
qed

lemma byte_of_low: "(word_of_int (take_bit 8 c) :: byte) = word_of_int c"
  by (simp add: word_of_int_eq_iff)

lemma crc_bytes:
  "map word_of_int [shr32 c 24, sar32 c 16 AND 255, sar32 c 8 AND 255, c AND 255] = be32 (take_bit 32 c)"
proof -
  have a: "(word_of_int (shr32 c 24) :: byte) = word_of_int (take_bit 32 c div 2 ^ 24)"
    by (simp add: shr32_def drop_bit_eq_div)
  have b: "(word_of_int (sar32 c 16 AND 255) :: byte) = word_of_int (take_bit 32 c div 2 ^ 16)"
    using byte_of_shifted [of 16 c] by (simp add: sar32_def and_255 byte_of_low drop_bit_eq_div)
  have c: "(word_of_int (sar32 c 8 AND 255) :: byte) = word_of_int (take_bit 32 c div 2 ^ 8)"
    using byte_of_shifted [of 8 c] by (simp add: sar32_def and_255 byte_of_low drop_bit_eq_div)
  have d: "(word_of_int (c AND 255) :: byte) = word_of_int (take_bit 32 c)"
    using byte_of_shifted [of 0 c] by (simp add: and_255 byte_of_low)
  show ?thesis by (simp only: be32_def a b c d list.map)
qed

lemma crc_bytes_range:
  "b \<in> set [shr32 c 24, sar32 c 16 AND 255, sar32 c 8 AND 255, c AND 255] \<Longrightarrow> 0 \<le> b \<and> b \<le> 255"
proof -
  have "0 \<le> x AND 255 \<and> x AND 255 \<le> 255" for x :: int
    by simp
  moreover have "0 \<le> shr32 c 24 \<and> shr32 c 24 \<le> 255"
  proof -
    have "take_bit 32 c < 2 ^ 32" by (rule take_bit_int_less_exp)
    then have "take_bit 32 c div 2 ^ 24 < 2 ^ 8" by simp
    moreover have "0 \<le> take_bit 32 c div 2 ^ 24"
      by (intro pos_imp_zdiv_nonneg_iff [THEN iffD2]) simp_all
    ultimately show ?thesis by (simp add: shr32_def drop_bit_eq_div)
  qed
  ultimately show "b \<in> set [shr32 c 24, sar32 c 16 AND 255, sar32 c 8 AND 255, c AND 255] \<Longrightarrow> 0 \<le> b \<and> b \<le> 255"
    by auto
qed

section \<open>The loops of the PNG emitter\<close>

lemma png_byte_step_eq:
  "png_byte_step rgba j (bytes, s) =
     (bytes @ [hash_int rgba j AND 255], adler_step s (word_of_int (hash_int rgba j AND 255)))"
proof -
  have u: "uint (word_of_int (hash_int rgba j AND 255) :: byte) = hash_int rgba j AND 255"
    by (simp add: uint_word_of_int and_255 take_bit_eq_mod)
  show ?thesis
    by (cases s) (simp add: png_byte_step_def adler_step_def Let_def u)
qed

lemma png_bytes_fold:
  "fold (png_byte_step rgba) [i..<i + n] (bytes, s) =
     (bytes @ map (\<lambda>j. hash_int rgba j AND 255) [i..<i + n],
      fold (\<lambda>j s. adler_step s (word_of_int (hash_int rgba j AND 255))) [i..<i + n] s)"
  by (induction n) (simp_all add: png_byte_step_eq)

lemma png_row_step_eq:
  "png_row_step w h rgba y (bytes, a, b, 4 * w * y, 4 * w * y + 4 * w) =
     (bytes @ row_ints w h rgba y,
      fst (fold (\<lambda>j s. adler_step s (word_of_int (hash_int rgba j AND 255)))
             [4 * w * y..<4 * w * y + 4 * w] (a, (b + a) mod 65521)),
      snd (fold (\<lambda>j s. adler_step s (word_of_int (hash_int rgba j AND 255)))
             [4 * w * y..<4 * w * y + 4 * w] (a, (b + a) mod 65521)),
      4 * w * Suc y, 4 * w * Suc y + 4 * w)"
proof -
  have m: "max (4 * w * y) (4 * w * y + 4 * w) = 4 * w * Suc y" by simp
  have n: "4 * w * y + 4 * w + (w * 4 + 1 - 1) = 4 * w * Suc y + 4 * w" by simp
  show ?thesis
    unfolding png_row_step_def Let_def prod.case m n png_bytes_fold row_ints_def
    by (simp add: case_prod_beta)
qed

lemma png_rows_fold:
  "fst (fold (png_row_step w h rgba) [0..<k] (bytes, a, b, 0, 4 * w)) =
     bytes @ concat (map (row_ints w h rgba) [0..<k])"
proof -
  have "\<exists>a' b'. fold (png_row_step w h rgba) [0..<k] (bytes, a, b, 0, 4 * w) =
     (bytes @ concat (map (row_ints w h rgba) [0..<k]), a', b', 4 * w * k, 4 * w * k + 4 * w)"
  proof (induction k)
    case 0
    then show ?case by simp
  next
    case (Suc k)
    then obtain a' b' where "fold (png_row_step w h rgba) [0..<k] (bytes, a, b, 0, 4 * w) =
       (bytes @ concat (map (row_ints w h rgba) [0..<k]), a', b', 4 * w * k, 4 * w * k + 4 * w)"
      by blast
    then show ?case by (simp add: png_row_step_eq)
  qed
  then show ?thesis by auto
qed

lemma array_set4:
  assumes "length z = 4"
  shows "array_set (array_set (array_set (array_set (pre @ z @ post) (length pre) v1)
      (length pre + 1) v2) (length pre + 2) v3) (length pre + 3) v4 = pre @ [v1, v2, v3, v4] @ post"
proof -
  obtain z1 z2 z3 z4 where z: "z = [z1, z2, z3, z4]"
    using assms by (auto simp add: length_Suc_conv eval_nat_numeral)
  show ?thesis
    by (simp add: z array_set_def list_update_append nth_append)
qed

lemma png_crc_eq:
  assumes "length z = 4"
  shows "png_crc (length pre, length pre + length bs) (pre @ bs @ z @ post) =
     pre @ bs @ crc_ints (not32 (fold (crc_step (pre @ bs @ z @ post))
        [length pre..<length pre + length bs] (not32 0))) @ post"
proof -
  have "array_set (array_set (array_set (array_set ((pre @ bs) @ z @ post) (length (pre @ bs)) v1)
      (length (pre @ bs) + 1) v2) (length (pre @ bs) + 2) v3) (length (pre @ bs) + 3) v4 =
      (pre @ bs) @ [v1, v2, v3, v4] @ post" for v1 v2 v3 v4
    by (rule array_set4 [OF assms])
  then show ?thesis
    by (simp add: png_crc_def Let_def crc_ints_def)
qed

lemma crc_ints_spec:
  assumes "\<And>x. x \<in> set bs \<Longrightarrow> 0 \<le> x \<and> x \<le> 255"
  shows "map word_of_int (crc_ints (not32 (fold (crc_step (pre @ bs @ post))
        [length pre..<length pre + length bs] (not32 0)))) = be32 (crc32 (map word_of_int bs))"
proof -
  have "0 \<le> bs ! j \<and> bs ! j \<le> 255" if "j < length bs" for j
    using assms that by simp
  then have "take_bit 32 (not32 (fold (crc_step (pre @ bs @ post))
      [length pre..<length pre + length bs] (not32 0))) = crc32 (map word_of_int (take (length bs) bs))"
    by (intro crc_value) simp_all
  then show ?thesis
    unfolding crc_ints_def crc_bytes by simp
qed

lemma crc_ints_range: "x \<in> set (crc_ints c) \<Longrightarrow> 0 \<le> x \<and> x \<le> 255"
  unfolding crc_ints_def by (rule crc_bytes_range)

lemma png_head_eq:
  "png_head w h = sig_ints @ ihdr_chunk_ints w h @ [0, 0, 0, 0]
     @ idat_len_ints (6 + h * (5 + (w * 4 + 1))) @ [73, 68, 65, 84, 120, 1]"
  by (simp add: png_head_def ihdr_ints_def idat_len_ints_def Let_def sig_ints_def ihdr_chunk_ints_def)

lemma length_row_ints: "length (row_ints w h rgba y) = 6 + 4 * w"
  by (simp add: row_ints_def)

lemma length_rows: "length (concat (map (row_ints w h rgba) [0..<k])) = k * (6 + 4 * w)"
  by (induction k) (simp_all add: length_row_ints)

lemma length_adler_ints: "length (adler_ints w h rgba) = 4"
  by (simp add: adler_ints_def split: prod.splits)

lemma length_idat_ints: "length (idat_ints w h rgba) = 4 + (6 + h * (5 + (w * 4 + 1)))"
  by (simp add: idat_ints_def length_rows length_adler_ints algebra_simps)

lemma length_png_parts:
  "length sig_ints = 12" "length (ihdr_chunk_ints w h) = 17" "length (crc_ints c) = 4"
  "length (idat_len_ints n) = 4"
  by (simp_all add: sig_ints_def ihdr_chunk_ints_def ihdr_ints_def crc_ints_def idat_len_ints_def)

lemma png_array_eq:
  "\<exists>post1 post2 c1 c2.
     c1 = not32 (fold (crc_step (sig_ints @ ihdr_chunk_ints w h @ post1))
            [length sig_ints..<length sig_ints + length (ihdr_chunk_ints w h)] (not32 0)) \<and>
     c2 = not32 (fold (crc_step
              ((sig_ints @ ihdr_chunk_ints w h @ crc_ints c1 @ idat_len_ints (6 + h * (5 + (w * 4 + 1))))
               @ idat_ints w h rgba @ post2))
            [length (sig_ints @ ihdr_chunk_ints w h @ crc_ints c1 @ idat_len_ints (6 + h * (5 + (w * 4 + 1))))..<
             length (sig_ints @ ihdr_chunk_ints w h @ crc_ints c1 @ idat_len_ints (6 + h * (5 + (w * 4 + 1))))
               + length (idat_ints w h rgba)] (not32 0)) \<and>
     png_array w h rgba =
       sig_ints @ ihdr_chunk_ints w h @ crc_ints c1 @ idat_len_ints (6 + h * (5 + (w * 4 + 1)))
       @ idat_ints w h rgba @ crc_ints c2 @ iend_ints"
proof -
  define idat where "idat = 6 + h * (5 + (w * 4 + 1))"
  define rows where "rows = concat (map (row_ints w h rgba) [0..<h])"
  define post1 where "post1 = [0::int, 0, 0, 0] @ idat_len_ints idat @ idat_ints w h rgba @ [0, 0, 0, 0] @ iend_ints"
  define c1 where "c1 = not32 (fold (crc_step (sig_ints @ ihdr_chunk_ints w h @ post1))
            [length sig_ints..<length sig_ints + length (ihdr_chunk_ints w h)] (not32 0))"
  define pre2 where "pre2 = sig_ints @ ihdr_chunk_ints w h @ crc_ints c1 @ idat_len_ints idat"
  define post2 where "post2 = [0::int, 0, 0, 0] @ iend_ints"
  define c2 where "c2 = not32 (fold (crc_step (pre2 @ idat_ints w h rgba @ post2))
            [length pre2..<length pre2 + length (idat_ints w h rgba)] (not32 0))"
  have z4: "length [0::int, 0, 0, 0] = 4" by simp
  obtain bytes a b i e where f: "fold (png_row_step w h rgba) [0..<h] (png_head w h, 1, 0, 0, w * 4 + 1 - 1) =
      (bytes, a, b, i, e)"
    by (metis prod_cases5)
  have bytes: "bytes = png_head w h @ rows"
    using png_rows_fold [of w h rgba h "png_head w h" 1 0] f by (simp add: rows_def mult.commute)
  have ad: "[sar32 b 8, b AND 255, sar32 a 8, a AND 255] = adler_ints w h rgba"
    unfolding adler_ints_def f by simp
  have "bytes @ [sar32 b 8, b AND 255, sar32 a 8, a AND 255, 0, 0, 0, 0,
                         0, 0, 0, 0, 73, 69, 78, 68, 174, 66, 96, 130] =
      bytes @ [sar32 b 8, b AND 255, sar32 a 8, a AND 255] @ [0, 0, 0, 0] @ iend_ints"
    by (simp add: iend_ints_def)
  also have "\<dots> = sig_ints @ ihdr_chunk_ints w h @ post1"
    unfolding ad bytes png_head_eq post1_def idat_ints_def rows_def idat_def by simp
  finally have B0: "bytes @ [sar32 b 8, b AND 255, sar32 a 8, a AND 255, 0, 0, 0, 0,
                         0, 0, 0, 0, 73, 69, 78, 68, 174, 66, 96, 130] =
      sig_ints @ ihdr_chunk_ints w h @ post1" .
  have a1: "png_array w h rgba =
      png_crc (37, 41 + idat) (png_crc (12, 29) (sig_ints @ ihdr_chunk_ints w h @ post1))"
    by (simp only: png_array_def Let_def f prod.case B0 fold_simps idat_def)
  have r1: "(12, 29) = (length sig_ints, length sig_ints + length (ihdr_chunk_ints w h))"
    by (simp add: length_png_parts)
  have p1: "sig_ints @ ihdr_chunk_ints w h @ post1 =
      sig_ints @ ihdr_chunk_ints w h @ [0, 0, 0, 0] @ (idat_len_ints idat @ idat_ints w h rgba @ [0, 0, 0, 0] @ iend_ints)"
    by (simp add: post1_def)
  have s1: "png_crc (12, 29) (sig_ints @ ihdr_chunk_ints w h @ post1) =
      sig_ints @ ihdr_chunk_ints w h @ crc_ints c1 @ (idat_len_ints idat @ idat_ints w h rgba @ [0, 0, 0, 0] @ iend_ints)"
    unfolding r1 c1_def by (subst (1 2) p1) (rule png_crc_eq [OF z4])
  have r2: "(37, 41 + idat) = (length pre2, length pre2 + length (idat_ints w h rgba))"
    by (simp add: pre2_def length_png_parts length_idat_ints idat_def)
  have p2: "sig_ints @ ihdr_chunk_ints w h @ crc_ints c1 @ (idat_len_ints idat @ idat_ints w h rgba @ [0, 0, 0, 0] @ iend_ints) =
      pre2 @ idat_ints w h rgba @ [0, 0, 0, 0] @ iend_ints"
    by (simp add: pre2_def)
  have s2: "png_crc (37, 41 + idat) (pre2 @ idat_ints w h rgba @ [0, 0, 0, 0] @ iend_ints) =
      pre2 @ idat_ints w h rgba @ crc_ints c2 @ iend_ints"
    unfolding r2 c2_def post2_def by (rule png_crc_eq [OF z4])
  have "png_array w h rgba = pre2 @ idat_ints w h rgba @ crc_ints c2 @ iend_ints"
    by (simp only: a1 s1 p2 s2)
  then have "png_array w h rgba =
       sig_ints @ ihdr_chunk_ints w h @ crc_ints c1 @ idat_len_ints idat
       @ idat_ints w h rgba @ crc_ints c2 @ iend_ints"
    by (simp add: pre2_def)
  with c1_def c2_def show ?thesis
    unfolding pre2_def idat_def by blast
qed

section \<open>The Adler-32 sums and the rows\<close>

lemma adler_step_range:
  "adler_step s u = (a, b) \<Longrightarrow> 0 \<le> a \<and> a < 65521 \<and> 0 \<le> b \<and> b < 65521"
  by (cases s) (auto simp add: adler_step_def Let_def)

lemma adler_fold_range:
  assumes "0 \<le> fst s \<and> fst s < 65521 \<and> 0 \<le> snd s \<and> snd s < 65521"
  shows "0 \<le> fst (fold (\<lambda>u s. adler_step s u) bs s) \<and> fst (fold (\<lambda>u s. adler_step s u) bs s) < 65521 \<and>
         0 \<le> snd (fold (\<lambda>u s. adler_step s u) bs s) \<and> snd (fold (\<lambda>u s. adler_step s u) bs s) < 65521"
  using assms
proof (induction bs arbitrary: s)
  case Nil
  then show ?case by simp
next
  case (Cons u bs)
  have "0 \<le> fst (adler_step s u) \<and> fst (adler_step s u) < 65521 \<and>
      0 \<le> snd (adler_step s u) \<and> snd (adler_step s u) < 65521"
    using adler_step_range [of s u "fst (adler_step s u)" "snd (adler_step s u)"] by simp
  then show ?case using Cons.IH [of "adler_step s u"] by simp
qed

lemma bytes_of_range:
  assumes "i + n \<le> length rgba"
  shows "map (\<lambda>j. word_of_int (hash_int rgba j AND 255)) [i..<i + n] = take n (drop i rgba)"
proof (rule nth_equalityI)
  show "length (map (\<lambda>j. word_of_int (hash_int rgba j AND 255) :: byte) [i..<i + n]) = length (take n (drop i rgba))"
    using assms by simp
next
  fix k assume "k < length (map (\<lambda>j. word_of_int (hash_int rgba j AND 255) :: byte) [i..<i + n])"
  then have k: "k < n" by simp
  then have "i + k < length rgba" using assms by simp
  then have "(word_of_int (hash_int rgba (i + k) AND 255) :: byte) = rgba ! (i + k)"
    by (simp add: hash_int_def and_255 byte_of_low)
  then show "map (\<lambda>j. word_of_int (hash_int rgba j AND 255)) [i..<i + n] ! k = take n (drop i rgba) ! k"
    using k assms by simp
qed

lemma adler_row:
  assumes "0 \<le> a" "a < 65521" "4 * w * y + 4 * w \<le> length rgba"
  shows "fold (\<lambda>j s. adler_step s (word_of_int (hash_int rgba j AND 255)))
             [4 * w * y..<4 * w * y + 4 * w] (a, (b + a) mod 65521) =
         fold (\<lambda>u s. adler_step s u) (0 # scanline w rgba y) (a, b)"
proof -
  have z: "adler_step (a, b) 0 = (a, (b + a) mod 65521)"
    using assms(1,2) by (simp add: adler_step_def)
  have "fold (\<lambda>j s. adler_step s (word_of_int (hash_int rgba j AND 255))) [4 * w * y..<4 * w * y + 4 * w] s =
      fold (\<lambda>u s. adler_step s u) (map (\<lambda>j. word_of_int (hash_int rgba j AND 255)) [4 * w * y..<4 * w * y + 4 * w]) s"
    for s by (simp add: fold_map comp_def)
  then show ?thesis
    by (simp add: bytes_of_range [OF assms(3)] scanline_def z)
qed

lemma png_rows_state:
  assumes "4 * w * k \<le> length rgba" "0 \<le> a \<and> a < 65521 \<and> 0 \<le> b \<and> b < 65521"
  shows "fold (png_row_step w h rgba) [0..<k] (bytes, a, b, 0, 4 * w) =
     (bytes @ concat (map (row_ints w h rgba) [0..<k]),
      fst (fold (\<lambda>u s. adler_step s u) (concat (map (\<lambda>y. 0 # scanline w rgba y) [0..<k])) (a, b)),
      snd (fold (\<lambda>u s. adler_step s u) (concat (map (\<lambda>y. 0 # scanline w rgba y) [0..<k])) (a, b)),
      4 * w * k, 4 * w * k + 4 * w)"
  using assms(1)
proof (induction k)
  case 0
  then show ?case by simp
next
  case (Suc k)
  define s where "s = fold (\<lambda>u s. adler_step s u) (concat (map (\<lambda>y. 0 # scanline w rgba y) [0..<k])) (a, b)"
  have r: "0 \<le> fst s \<and> fst s < 65521 \<and> 0 \<le> snd s \<and> snd s < 65521"
    unfolding s_def by (rule adler_fold_range) (use assms(2) in simp)
  have len: "4 * w * k + 4 * w \<le> length rgba" "4 * w * k \<le> length rgba" using Suc.prems by simp_all
  have ih: "fold (png_row_step w h rgba) [0..<k] (bytes, a, b, 0, 4 * w) =
     (bytes @ concat (map (row_ints w h rgba) [0..<k]), fst s, snd s, 4 * w * k, 4 * w * k + 4 * w)"
    unfolding s_def by (rule Suc.IH [OF len(2)])
  have row: "fold (\<lambda>j s. adler_step s (word_of_int (hash_int rgba j AND 255)))
             [4 * w * k..<4 * w * k + 4 * w] (fst s, (snd s + fst s) mod 65521) =
         fold (\<lambda>u s. adler_step s u) (0 # scanline w rgba k) s"
    using adler_row [of "fst s" w k rgba "snd s"] r len(1) by simp
  have "fold (\<lambda>u s. adler_step s u) (concat (map (\<lambda>y. 0 # scanline w rgba y) [0..<Suc k])) (a, b) =
      fold (\<lambda>u s. adler_step s u) (0 # scanline w rgba k) s"
    by (simp add: s_def)
  then show ?case
    by (simp only: upt_Suc_append [OF le0] fold_append o_apply fold_simps ih png_row_step_eq row
        map_append concat_append list.map concat.simps append_Nil2 append_assoc)
qed

lemma int32_of_nat_id: "n < 2 ^ 31 \<Longrightarrow> int32_of_nat n = int n"
  unfolding int32_of_nat_def by (rule wrap32_id) simp_all

lemma div256_range:
  assumes "0 \<le> (x::int)" "x < 65536"
  shows "0 \<le> x div 256 \<and> x div 256 \<le> 255"
proof -
  have "x div 256 \<le> 65535 div 256" using assms(2) by (intro zdiv_mono1) simp_all
  moreover have "0 \<le> x div 256" using assms(1) by (simp add: pos_imp_zdiv_nonneg_iff)
  ultimately show ?thesis by simp
qed

lemma range_and_255: "0 \<le> (x::int) AND 255 \<and> x AND 255 \<le> 255"
  by simp

lemma range_xor_255:
  assumes "0 \<le> (x::int)" "x \<le> 255"
  shows "0 \<le> x XOR 255 \<and> x XOR 255 \<le> 255"
proof -
  have "x XOR 255 < 2 ^ 8" using assms by (intro XOR_upper) simp_all
  then show ?thesis using assms by simp
qed

lemma row_ints_range:
  assumes "w \<le> 16383" "4 * w * y + 4 * w \<le> length rgba" "x \<in> set (row_ints w h rgba y)"
  shows "0 \<le> x \<and> x \<le> 255"
proof -
  have r: "int32_of_nat (w * 4 + 1) = int (w * 4 + 1)"
    using assms(1) by (intro int32_of_nat_id) simp
  have d: "0 \<le> sar32 (int (w * 4 + 1)) 8" "sar32 (int (w * 4 + 1)) 8 \<le> 255"
    using assms(1) by (simp_all add: sar32_div)
  have "0 \<le> hash_int rgba i AND 255 \<and> hash_int rgba i AND 255 \<le> 255" for i
    by (rule range_and_255)
  then show ?thesis
    using assms(3) range_and_255 range_xor_255 [OF d] d
    unfolding row_ints_def r by auto
qed

lemma row_ints_bytes:
  assumes "w \<le> 16383" "4 * w * y + 4 * w \<le> length rgba" "y < h"
  shows "map word_of_int (row_ints w h rgba y) =
     stored_block (y + 1 = h) (w * 4 + 1) (0 # scanline w rgba y)"
proof -
  have r: "int32_of_nat (w * 4 + 1) = int (w * 4 + 1)"
    using assms(1) by (intro int32_of_nat_id) simp
  have f: "(word_of_int (if y + 1 < h then 0 else 1) :: byte) = of_bool (y + 1 = h)"
    using assms(3) by auto
  have "(word_of_nat ((w * 4 + 1) mod 256) :: byte) = word_of_nat (w * 4 + 1)"
    unfolding word_of_nat_eq_iff take_bit_eq_mod by simp
  then have lo: "(word_of_int (int (w * 4 + 1) AND 255) :: byte) = word_of_nat ((w * 4 + 1) mod 256)"
    unfolding and_255 byte_of_low by simp
  have hi: "(word_of_int (sar32 (int (w * 4 + 1)) 8) :: byte) = word_of_nat ((w * 4 + 1) div 256)"
  proof -
    have "sar32 (int (w * 4 + 1)) 8 = int ((w * 4 + 1) div 256)"
      unfolding zdiv_int by (simp add: sar32_div)
    then show ?thesis by (simp only: of_int_of_nat_eq)
  qed
  have nlo: "(word_of_int (not32 (int (w * 4 + 1)) AND 255) :: byte) = NOT (word_of_nat ((w * 4 + 1) mod 256))"
    unfolding lo [symmetric] and_255 byte_of_low not32_def by (simp add: of_int_not_eq)
  have nhi: "(word_of_int (sar32 (int (w * 4 + 1)) 8 XOR 255) :: byte) = NOT (word_of_nat ((w * 4 + 1) div 256))"
  proof -
    have "(word_of_int (sar32 (int (w * 4 + 1)) 8 XOR 255) :: byte) =
        word_of_int (sar32 (int (w * 4 + 1)) 8) XOR word_of_int 255"
      by (simp only: of_int_xor_eq)
    also have "(word_of_int 255 :: byte) = - 1" by simp
    finally show ?thesis by (simp only: hi bit.xor_one_right)
  qed
  have data: "map word_of_int (map (\<lambda>i. hash_int rgba i AND 255) [4 * w * y..<4 * w * y + 4 * w]) =
      scanline w rgba y"
    using bytes_of_range [OF assms(2)] by (simp add: scanline_def comp_def)
  show ?thesis
    unfolding row_ints_def r stored_block_def map_append list.map f lo hi nlo nhi data
    by simp
qed

lemma rows_bytes:
  assumes "w \<le> 16383" "4 * w * h \<le> length rgba"
  shows "map word_of_int (concat (map (row_ints w h rgba) [0..<h])) =
     concat (map (\<lambda>y. stored_block (y + 1 = h) (w * 4 + 1) (0 # scanline w rgba y)) [0..<h])"
proof -
  have "map word_of_int (row_ints w h rgba y) =
      (stored_block (y + 1 = h) (w * 4 + 1) (0 # scanline w rgba y) :: byte list)" if "y < h" for y
  proof -
    have "4 * w * y + 4 * w = 4 * w * Suc y" by simp
    also have "\<dots> \<le> 4 * w * h" using that by (intro mult_le_mono2) simp
    finally show ?thesis using assms by (intro row_ints_bytes that) simp_all
  qed
  then have "map (\<lambda>y. map word_of_int (row_ints w h rgba y)) [0..<h] =
      map (\<lambda>y. stored_block (y + 1 = h) (w * 4 + 1) (0 # scanline w rgba y) :: byte list) [0..<h]"
    by (intro map_cong refl) simp
  then show ?thesis
    by (simp only: map_concat map_map comp_def)
qed

lemma rows_range:
  assumes "w \<le> 16383" "4 * w * h \<le> length rgba" "x \<in> set (concat (map (row_ints w h rgba) [0..<h]))"
  shows "0 \<le> x \<and> x \<le> 255"
proof -
  obtain y where y: "y < h" "x \<in> set (row_ints w h rgba y)" using assms(3) by auto
  have "4 * w * y + 4 * w = 4 * w * Suc y" by simp
  also have "\<dots> \<le> 4 * w * h" using y(1) by (intro mult_le_mono2) simp
  finally show ?thesis using assms(1,2) y(2) by (intro row_ints_range [of w y rgba x h]) simp_all
qed

lemma adler_ints_bytes:
  assumes "4 * w * h \<le> length rgba"
  shows "map word_of_int (adler_ints w h rgba) =
      be32 (adler32 (concat (map (\<lambda>y. 0 # scanline w rgba y) [0..<h])))"
    and "x \<in> set (adler_ints w h rgba) \<Longrightarrow> 0 \<le> x \<and> x \<le> 255"
proof -
  define s where "s = fold (\<lambda>u s. adler_step s u) (concat (map (\<lambda>y. 0 # scanline w rgba y) [0..<h])) (1, 0)"
  have r: "0 \<le> fst s \<and> fst s < 65521 \<and> 0 \<le> snd s \<and> snd s < 65521"
    unfolding s_def by (rule adler_fold_range) simp
  have st: "fold (png_row_step w h rgba) [0..<h] (png_head w h, 1, 0, 0, w * 4 + 1 - 1) =
      (png_head w h @ concat (map (row_ints w h rgba) [0..<h]), fst s, snd s, 4 * w * h, 4 * w * h + 4 * w)"
    using png_rows_state [OF assms, of 1 0 h "png_head w h"] by (simp add: s_def mult.commute)
  have ai: "adler_ints w h rgba = [sar32 (snd s) 8, snd s AND 255, sar32 (fst s) 8, fst s AND 255]"
    unfolding adler_ints_def st by simp
  have v: "adler32 (concat (map (\<lambda>y. 0 # scanline w rgba y) [0..<h])) = snd s * 65536 + fst s"
    by (simp add: adler32_def s_def case_prod_beta)
  have b1: "(snd s * 65536 + fst s) div 2 ^ 24 = snd s div 256"
  proof -
    have "fst s div 65536 = 0" using r by simp
    then have "(snd s * 65536 + fst s) div 65536 = snd s" by simp
    moreover have "(snd s * 65536 + fst s) div 2 ^ 24 = (snd s * 65536 + fst s) div 65536 div 256"
      by (simp add: div_mult2_eq [symmetric])
    ultimately show ?thesis by simp
  qed
  have b2: "(word_of_int ((snd s * 65536 + fst s) div 2 ^ 16) :: byte) = word_of_int (snd s AND 255)"
  proof -
    have "fst s div 65536 = 0" using r by simp
    then have "(snd s * 65536 + fst s) div 2 ^ 16 = snd s" by simp
    then show ?thesis by (simp only: and_255 byte_of_low)
  qed
  have b3: "(word_of_int ((snd s * 65536 + fst s) div 2 ^ 8) :: byte) = word_of_int (sar32 (fst s) 8)"
  proof -
    have "(snd s * 65536 + fst s) div 2 ^ 8 = snd s * 256 + fst s div 256"
      by simp
    moreover have "(word_of_int (snd s * 256 + fst s div 256) :: byte) = word_of_int (fst s div 256)"
      unfolding word_of_int_eq_iff take_bit_eq_mod by simp
    ultimately show ?thesis by (simp add: sar32_div)
  qed
  have b4: "(word_of_int (snd s * 65536 + fst s) :: byte) = word_of_int (fst s AND 255)"
  proof -
    have "snd s * 65536 + fst s = fst s + 256 * (snd s * 256)" by simp
    then have "(snd s * 65536 + fst s) mod 256 = fst s mod 256"
      by (simp only: mod_mult_self2)
    then show ?thesis
      unfolding word_of_int_eq_iff take_bit_eq_mod and_255 by simp
  qed
  show "map word_of_int (adler_ints w h rgba) =
      be32 (adler32 (concat (map (\<lambda>y. 0 # scanline w rgba y) [0..<h])))"
    unfolding ai v be32_def list.map b1 b2 b3 b4 by (simp add: sar32_div)
  have "0 \<le> sar32 (snd s) 8 \<and> sar32 (snd s) 8 \<le> 255" "0 \<le> sar32 (fst s) 8 \<and> sar32 (fst s) 8 \<le> 255"
    using r div256_range [of "snd s"] div256_range [of "fst s"] by (simp_all add: sar32_div)
  then show "x \<in> set (adler_ints w h rgba) \<Longrightarrow> 0 \<le> x \<and> x \<le> 255"
    unfolding ai using range_and_255 by auto
qed

section \<open>The PNG stream\<close>

lemma crc32_IEND: "be32 (crc32 tag_IEND) = [174, 66, 96, 130]"
proof -
  have "crc32 tag_IEND = 0xAE426082"
    by code_simp
  then show ?thesis by (simp add: be32_def)
qed

lemma all_bytes_no_error:
  fixes bytes :: "int list"
  assumes "\<And>x. x \<in> set bytes \<Longrightarrow> 0 \<le> x \<and> x \<le> 255"
  shows "\<not> list_ex (\<lambda>b. b mod 65536 > 255) bytes"
proof -
  have "\<not> x mod 65536 > 255" if "x \<in> set bytes" for x
    using assms [OF that] by simp
  then show ?thesis by (auto simp add: list_ex_iff)
qed

lemma ihdr_chunk_range:
  assumes "w \<le> 16383" "h \<le> 65535" "x \<in> set (ihdr_chunk_ints w h)"
  shows "0 \<le> x \<and> x \<le> 255"
proof -
  have w: "int32_of_nat w = int w" and h: "int32_of_nat h = int h"
    using assms(1,2) by (simp_all add: int32_of_nat_id)
  have "0 \<le> sar32 (int w) 8 \<and> sar32 (int w) 8 \<le> 255" "0 \<le> sar32 (int h) 8 \<and> sar32 (int h) 8 \<le> 255"
    using assms(1,2) div256_range [of "int w"] div256_range [of "int h"] by (simp_all add: sar32_div)
  then show ?thesis
    using assms(3) range_and_255 unfolding ihdr_chunk_ints_def ihdr_ints_def w h by auto
qed

lemma idat_len_range: "x \<in> set (idat_len_ints n) \<Longrightarrow> 0 \<le> x \<and> x \<le> 255"
  using crc_bytes_range [of x "int n"] range_and_255
  by (auto simp add: idat_len_ints_def)

lemma idat_ints_bytes:
  assumes "w \<le> 16383" "4 * w * h \<le> length rgba"
  shows "map word_of_int (idat_ints w h rgba) = tag_IDAT @ zlib_stream w h rgba"
    and "x \<in> set (idat_ints w h rgba) \<Longrightarrow> 0 \<le> x \<and> x \<le> 255"
proof -
  show "map word_of_int (idat_ints w h rgba) = tag_IDAT @ zlib_stream w h rgba"
    unfolding idat_ints_def map_append rows_bytes [OF assms] adler_ints_bytes(1) [OF assms(2)]
      zlib_stream_def tag_IDAT_def
    by simp
  show "x \<in> set (idat_ints w h rgba) \<Longrightarrow> 0 \<le> x \<and> x \<le> 255"
    unfolding idat_ints_def set_append Un_iff
    using rows_range [OF assms] adler_ints_bytes(2) [OF assms(2)] by auto
qed

lemma png_array_45:
  assumes "0 < h"
  shows "45 < length (png_array w h rgba)"
    and "png_array w h rgba ! 45 = sar32 (int32_of_nat (w * 4 + 1)) 8"
proof -
  define idat where "idat = 6 + h * (5 + (w * 4 + 1))"
  obtain c1 c2 where arr: "png_array w h rgba =
       sig_ints @ ihdr_chunk_ints w h @ crc_ints c1 @ idat_len_ints idat
       @ idat_ints w h rgba @ crc_ints c2 @ iend_ints"
    using png_array_eq [of w h rgba] unfolding idat_def by blast
  define pre where "pre = sig_ints @ ihdr_chunk_ints w h @ crc_ints c1 @ idat_len_ints idat"
  define post where "post = idat_ints w h rgba @ crc_ints c2 @ iend_ints"
  have pre: "length pre = 37"
    by (simp add: pre_def length_png_parts)
  have a: "png_array w h rgba = pre @ post"
    by (simp add: arr pre_def post_def)
  obtain k where h: "h = Suc k" using assms by (cases h) simp_all
  have rows: "concat (map (row_ints w h rgba) [0..<h]) =
      row_ints w h rgba 0 @ concat (map (row_ints w h rgba) [1..<h])"
    unfolding h by (simp add: upt_conv_Cons del: upt_Suc)
  have p8: "8 < length post" "post ! 8 = sar32 (int32_of_nat (w * 4 + 1)) 8"
    unfolding post_def idat_ints_def rows by (simp_all add: row_ints_def)
  show "45 < length (png_array w h rgba)" using p8(1) pre by (simp add: a)
  have "(pre @ post) ! (length pre + 8) = post ! 8" by (rule nth_append_length_plus)
  then show "png_array w h rgba ! 45 = sar32 (int32_of_nat (w * 4 + 1)) 8"
    using p8(2) pre by (simp add: a)
qed

lemma length_png_array: "length (png_array w h rgba) = 63 + h * (4 * w + 6)"
proof -
  obtain c1 c2 where arr: "png_array w h rgba =
       sig_ints @ ihdr_chunk_ints w h @ crc_ints c1 @ idat_len_ints (6 + h * (5 + (w * 4 + 1)))
       @ idat_ints w h rgba @ crc_ints c2 @ iend_ints"
    using png_array_eq [of w h rgba] by blast
  have "5 + (w * 4 + 1) = 4 * w + 6" by simp
  then show ?thesis
    unfolding arr by (simp add: length_png_parts length_idat_ints iend_ints_def)
qed

lemma png_wide_error:
  "png_array 16384 1 rgba ! 45 = 256"
  "rgbaToDataURL max_args 16384 1 rgba =
     Inl (if max_args < 65605 then RangeError else InvalidCharacterError)"
proof -
  have h: "(0::nat) < 1" by simp
  have v: "sar32 (int32_of_nat (16384 * 4 + 1)) 8 = 256"
    by (simp add: int32_of_nat_def wrap32_def sar32_def)
  show e: "png_array 16384 1 rgba ! 45 = 256"
    by (simp only: png_array_45(2) [OF h] v)
  have "png_array 16384 1 rgba ! 45 \<in> set (png_array 16384 1 rgba)"
    using png_array_45(1) [OF h] by (rule nth_mem)
  then have "256 \<in> set (png_array 16384 1 rgba)" by (simp only: e)
  then have ex: "list_ex (\<lambda>b. b mod 65536 > 255) (png_array 16384 1 rgba)"
    unfolding list_ex_iff by (rule bexI [rotated]) simp
  have "63 + 1 * (4 * 16384 + 6) = (65605::nat)" by simp
  then have len: "length (png_array 16384 1 rgba) = 65605"
    by (simp only: length_png_array)
  show "rgbaToDataURL max_args 16384 1 rgba =
     Inl (if max_args < 65605 then RangeError else InvalidCharacterError)"
    unfolding rgbaToDataURL_def Let_def len using ex by simp
qed

lemma zlib_white:
  "zlib_stream 1 1 [255, 255, 255, 255] =
     [120, 1, 1, 5, 0, 250, 255, 0, 255, 255, 255, 255, 9, 251, 3, 253]"
  by (simp add: zlib_stream_def stored_block_def scanline_def be32_def adler32_def adler_step_def)

text \<open>
  C7 as stated (for every \<open>w, h \<ge> 1\<close>) fails: a row of 16384 pixels has
  \<open>LEN = 16384 * 4 + 1 = 65537\<close>, which does not fit the two bytes of a stored-block
  header. The element \<^verbatim>\<open>row >> 8\<close> pushed at index 45 is 256, not a byte. On an engine
  that takes the 65605 elements of \<open>bytes\<close> as arguments (here one with the largest
  limit there can be) \<^verbatim>\<open>btoa\<close> throws; on one that does not (here one with the limit
  65535) the call itself throws. Either way no byte stream is produced.
\<close>

theorem png_stream_counterexample:
  "length (replicate 65536 (0::byte)) = 16384 * 1 * 4 \<and>
   png_array 16384 1 (replicate 65536 0) ! 45 = 256 \<and>
   rgbaToDataURL 4294967295 16384 1 (replicate 65536 0) = Inl InvalidCharacterError \<and>
   rgbaToDataURL 65535 16384 1 (replicate 65536 0) = Inl RangeError"
  using png_wide_error(1) [where rgba = "replicate 65536 0"]
    png_wide_error(2) [where rgba = "replicate 65536 0" and max_args = 4294967295]
    png_wide_error(2) [where rgba = "replicate 65536 0" and max_args = 65535]
  by simp

text \<open>
  C7, amended. For every \<open>w\<close> and \<open>h\<close> in \<open>[1, 100]\<close> (the sizes the source documents)
  and every buffer of \<open>w * h * 4\<close> bytes, on an engine that accepts the
  \<open>63 + h * (4 * w + 6)\<close> elements of \<open>bytes\<close> (at most 40663) as the arguments of one
  call, \<^verbatim>\<open>rgbaToDataURL\<close> produces the PNG signature and the three chunks IHDR, IDAT
  and IEND. The payload of IDAT is \<open>zlib_stream\<close>: the bytes
  \<open>[0x78, 0x01]\<close>, for each scanline the stored-block header with \<open>LEN = w * 4 + 1\<close>
  (final on the last row only), the filter byte 0 and the row, and then the big-endian
  Adler-32 checksum (modulus 65521) of the filter bytes and rows. Every chunk ends with
  the big-endian CRC-32 (reflected polynomial) of its type tag and payload, the length
  field left out.
\<close>

theorem png_stream:
  assumes "1 \<le> w" "w \<le> 100" "1 \<le> h" "h \<le> 100" "length rgba = w * h * 4"
    and "63 + h * (4 * w + 6) \<le> max_args"
  shows "\<exists>ihdr len2.
     length ihdr = 13 \<and> length len2 = 4 \<and>
     rgbaToDataURL max_args w h rgba =
       Inr (png_signature @ [0, 0, 0, 13] @ chunk_tail tag_IHDR ihdr
            @ len2 @ chunk_tail tag_IDAT (zlib_stream w h rgba)
            @ [0, 0, 0, 0] @ chunk_tail tag_IEND [])"
proof -
  have len: "4 * w * h \<le> length rgba" using assms(5) by (simp add: mult.commute mult.left_commute)
  have w: "w \<le> 16383" and h: "h \<le> 65535" using assms(2,4) by simp_all
  obtain post1 post2 c1 c2 where
    c1: "c1 = not32 (fold (crc_step (sig_ints @ ihdr_chunk_ints w h @ post1))
            [length sig_ints..<length sig_ints + length (ihdr_chunk_ints w h)] (not32 0))"
    and c2: "c2 = not32 (fold (crc_step
              ((sig_ints @ ihdr_chunk_ints w h @ crc_ints c1 @ idat_len_ints (6 + h * (5 + (w * 4 + 1))))
               @ idat_ints w h rgba @ post2))
            [length (sig_ints @ ihdr_chunk_ints w h @ crc_ints c1 @ idat_len_ints (6 + h * (5 + (w * 4 + 1))))..<
             length (sig_ints @ ihdr_chunk_ints w h @ crc_ints c1 @ idat_len_ints (6 + h * (5 + (w * 4 + 1))))
               + length (idat_ints w h rgba)] (not32 0))"
    and arr: "png_array w h rgba =
       sig_ints @ ihdr_chunk_ints w h @ crc_ints c1 @ idat_len_ints (6 + h * (5 + (w * 4 + 1)))
       @ idat_ints w h rgba @ crc_ints c2 @ iend_ints"
    using png_array_eq [of w h rgba] by blast
  define idat where "idat = 6 + h * (5 + (w * 4 + 1))"
  define ihdr :: "byte list" where "ihdr = map word_of_int (ihdr_ints w h)"
  define len1 :: "byte list" where "len1 = [0, 0, 0, 13]"
  define len2 :: "byte list" where "len2 = map word_of_int (idat_len_ints idat)"
  define len3 :: "byte list" where "len3 = [0, 0, 0, 0]"
  have r_ihdr: "0 \<le> x \<and> x \<le> 255" if "x \<in> set (ihdr_chunk_ints w h)" for x
    using ihdr_chunk_range [OF w h that] .
  have r_idat: "0 \<le> x \<and> x \<le> 255" if "x \<in> set (idat_ints w h rgba)" for x
    using idat_ints_bytes(2) [OF w len that] .
  have m_sig: "map word_of_int sig_ints = png_signature @ len1"
    by (simp add: sig_ints_def png_signature_def len1_def)
  have m_ihdr: "map word_of_int (ihdr_chunk_ints w h) = tag_IHDR @ ihdr"
    by (simp add: ihdr_chunk_ints_def tag_IHDR_def ihdr_def)
  have m_c1: "map word_of_int (crc_ints c1) = be32 (crc32 (tag_IHDR @ ihdr))"
    unfolding c1 m_ihdr [symmetric] by (rule crc_ints_spec) (rule r_ihdr)
  have m_idat: "map word_of_int (idat_ints w h rgba) = tag_IDAT @ zlib_stream w h rgba"
    by (rule idat_ints_bytes(1) [OF w len])
  have m_c2: "map word_of_int (crc_ints c2) = be32 (crc32 (tag_IDAT @ zlib_stream w h rgba))"
    unfolding c2 m_idat [symmetric] by (rule crc_ints_spec) (rule r_idat)
  have m_iend: "map word_of_int iend_ints = len3 @ tag_IEND @ be32 (crc32 (tag_IEND @ []))"
    by (simp add: iend_ints_def len3_def tag_IEND_def [symmetric] crc32_IEND)
  have bytes: "map word_of_int (png_array w h rgba) =
      png_signature @ len1 @ chunk_tail tag_IHDR ihdr
            @ len2 @ chunk_tail tag_IDAT (zlib_stream w h rgba)
            @ len3 @ chunk_tail tag_IEND []"
    unfolding arr map_append m_sig m_ihdr m_c1 m_idat m_c2 m_iend chunk_tail_def len2_def idat_def
    by simp
  have range: "0 \<le> x \<and> x \<le> 255" if "x \<in> set (png_array w h rgba)" for x
  proof -
    have "0 \<le> x \<and> x \<le> 255" if "x \<in> set sig_ints" for x
      using that by (auto simp add: sig_ints_def)
    moreover have "0 \<le> x \<and> x \<le> 255" if "x \<in> set iend_ints" for x
      using that by (auto simp add: iend_ints_def)
    ultimately show ?thesis
      using that r_ihdr r_idat crc_ints_range idat_len_range
      unfolding arr set_append Un_iff by blast
  qed
  have "h * (4 * w + 6) \<le> 100 * (4 * 100 + 6)"
    using assms(2,4) by (intro mult_mono) simp_all
  then have size: "\<not> (length (png_array w h rgba) > 4294967295 \<or> length (png_array w h rgba) > max_args)"
    using assms(6) by (simp add: length_png_array)
  have "rgbaToDataURL max_args w h rgba = Inr (map word_of_int (png_array w h rgba))"
    using all_bytes_no_error [of "png_array w h rgba"] range size
    by (simp add: rgbaToDataURL_def Let_def)
  then have "rgbaToDataURL max_args w h rgba =
       Inr (png_signature @ len1 @ chunk_tail tag_IHDR ihdr
            @ len2 @ chunk_tail tag_IDAT (zlib_stream w h rgba)
            @ len3 @ chunk_tail tag_IEND [])"
    by (simp only: bytes)
  moreover have "length ihdr = 13" "length len2 = 4"
    by (simp_all add: ihdr_def len2_def ihdr_ints_def idat_len_ints_def)
  ultimately show ?thesis unfolding len1_def len3_def by blast
qed

theorem png_stream_witness:
  "(1::nat) \<le> 1 \<and> (1::nat) \<le> 100 \<and> length [255, 255, 255, 255 :: byte] = 1 * 1 * 4 \<and>
   (63::nat) + 1 * (4 * 1 + 6) \<le> 65535 \<and>
   (\<exists>ihdr len2.
     length ihdr = 13 \<and> length len2 = 4 \<and>
     rgbaToDataURL 65535 1 1 [255, 255, 255, 255] =
       Inr (png_signature @ [0, 0, 0, 13] @ chunk_tail tag_IHDR ihdr
            @ len2 @ chunk_tail tag_IDAT
                [120, 1, 1, 5, 0, 250, 255, 0, 255, 255, 255, 255, 9, 251, 3, 253]
            @ [0, 0, 0, 0] @ chunk_tail tag_IEND []))"
proof -
  have "\<exists>ihdr len2.
     length ihdr = 13 \<and> length len2 = 4 \<and>
     rgbaToDataURL 65535 1 1 [255, 255, 255, 255] =
       Inr (png_signature @ [0, 0, 0, 13] @ chunk_tail tag_IHDR ihdr
            @ len2 @ chunk_tail tag_IDAT (zlib_stream 1 1 [255, 255, 255, 255])
            @ [0, 0, 0, 0] @ chunk_tail tag_IEND [])"
    by (rule png_stream) simp_all
  then show ?thesis unfolding zlib_white by simp
qed

end
